theory Spec2Isabelle
  imports Complex_Main "HOL-Library.Log_Nat"
begin

section \<open>basicstats.c: data model\<close>

text \<open>
  The program reads doubles into a growable array, sorts it and computes five statistics.

  \<^item> A finite \<open>double\<close> is a rational number, so the sample values are of type \<open>rat\<close>.
  \<^item> The arithmetic is a parameter \<open>rnd\<close> of every function that computes with doubles: the
    function applied to the exact result of each operation. With \<open>exact\<close> the result is
    left as it is; with \<open>binary64\<close> it is rounded as IEEE 754 double precision rounds it.
    What is proved of a computed number is proved for \<open>exact\<close>, and holds of the program
    up to rounding; where the rounding decides what the program does (how often the
    square-root loop runs, and whether it ends), \<open>binary64\<close> is used.
  \<^item> A C function that receives \<open>(data, size)\<close> is a function on the list of the first
    \<open>size\<close> elements of \<open>data\<close>; \<open>size\<close> is \<open>int (length data)\<close>.
  \<^item> What leaves this model is a \<open>fault\<close>: an access outside an array or to a cell that
    was never written, a division by zero (an infinity or a NaN in C, not a rational), a
    rounded value outside the normal range of binary64, and signed overflow of an \<open>int\<close>.
    A fault ends the computation: the model says nothing about what C does afterwards.
\<close>

datatype fault = Bad_Index | Div_Zero | Out_Of_Range | Int_Overflow

type_synonym 'a result = "fault + 'a"

text \<open>\<open>data[i]\<close> with an \<open>int\<close> index.\<close>

definition rd :: "rat list \<Rightarrow> int \<Rightarrow> rat result" where
  "rd data i = (if 0 \<le> i \<and> i < int (length data) then Inr (data ! nat i) else Inl Bad_Index)"

section \<open>Double arithmetic\<close>

definition exact :: "rat \<Rightarrow> rat result" where
  "exact q = Inr q"

text \<open>
  \<open>binary64\<close> rounds to the nearest number with a 53-bit significand, ties to even, as
  IEEE 754 double precision does for magnitudes in the normal range; here every magnitude
  outside \<open>[2^-1022, 2^1023)\<close> is a fault.
\<close>

definition pow2 :: "int \<Rightarrow> rat" where
  "pow2 k = (if 0 \<le> k then 2 ^ nat k else 1 / 2 ^ nat (- k))"

text \<open>For \<open>q > 0\<close>, the integer \<open>lg\<close> with \<open>2^lg \<le> q < 2^(lg + 1)\<close>.\<close>

definition floor_log2 :: "rat \<Rightarrow> int" where
  "floor_log2 q = (if 1 \<le> q then bitlen \<lfloor>q\<rfloor> - 1 else - bitlen (\<lceil>1 / q\<rceil> - 1))"

definition round_even :: "rat \<Rightarrow> int" where
  "round_even s =
     (let m = \<lfloor>s\<rfloor>; r = s - of_int m
      in if r < 1 / 2 then m
         else if 1 / 2 < r then m + 1
         else if even m then m else m + 1)"

definition binary64 :: "rat \<Rightarrow> rat result" where
  "binary64 q =
     (if q = 0 then Inr 0
      else
        let lg = floor_log2 \<bar>q\<bar>
        in if lg < - 1022 \<or> 1022 < lg then Inl Out_Of_Range
           else Inr (sgn q * of_int (round_even (\<bar>q\<bar> / pow2 (lg - 52))) * pow2 (lg - 52)))"

text \<open>\<open>a / b\<close> on doubles.\<close>

definition ddiv :: "(rat \<Rightarrow> rat result) \<Rightarrow> rat \<Rightarrow> rat \<Rightarrow> rat result" where
  "ddiv rnd a b = (if b = 0 then Inl Div_Zero else rnd (a / b))"

section \<open>The statistics functions\<close>

text \<open>
  \<open>sum\<close> and \<open>size\<close> are constants of HOL: where they would be arguments, the variables
  are \<open>sm\<close> and \<open>sz\<close>. An \<open>int\<close> converted to \<open>double\<close> is exact (it is below \<open>2^53\<close>).
\<close>

subsection \<open>calculate_mean\<close>

fun mean_loop :: "(rat \<Rightarrow> rat result) \<Rightarrow> rat list \<Rightarrow> rat \<Rightarrow> rat result" where
  "mean_loop rnd [] sm = Inr sm"
| "mean_loop rnd (x # data) sm =
     (case rnd (sm + x) of
        Inl f \<Rightarrow> Inl f
      | Inr s \<Rightarrow> mean_loop rnd data s)"

definition calculate_mean :: "(rat \<Rightarrow> rat result) \<Rightarrow> rat list \<Rightarrow> rat result" where
  "calculate_mean rnd data =
     (case mean_loop rnd data 0 of
        Inl f \<Rightarrow> Inl f
      | Inr sm \<Rightarrow> ddiv rnd sm (of_int (int (length data))))"

subsection \<open>babylonian_sqrt\<close>

text \<open>
  One evaluation of the loop test and, when it holds, of the loop body:
  \<^verbatim>\<open>while (x - y > e) { x = (x + y) / 2; y = value / x; }  return x;\<close>
\<close>

datatype iteration = Return "rat result" | Continue rat rat

definition babylonian_body ::
  "(rat \<Rightarrow> rat result) \<Rightarrow> rat \<Rightarrow> rat \<Rightarrow> rat \<Rightarrow> rat \<Rightarrow> iteration" where
  "babylonian_body rnd value e x y =
     (case rnd (x - y) of
        Inl f \<Rightarrow> Return (Inl f)
      | Inr d \<Rightarrow>
          if d > e then
            (case rnd (x + y) of
               Inl f \<Rightarrow> Return (Inl f)
             | Inr s \<Rightarrow>
                 (case rnd (s / 2) of
                    Inl f \<Rightarrow> Return (Inl f)
                  | Inr x' \<Rightarrow>
                      (case ddiv rnd value x' of
                         Inl f \<Rightarrow> Return (Inl f)
                       | Inr y' \<Rightarrow> Continue x' y')))
          else Return (Inr x))"

text \<open>The loop may run forever: \<open>None\<close> is "never returns".\<close>

partial_function (option) babylonian_loop ::
  "(rat \<Rightarrow> rat result) \<Rightarrow> rat \<Rightarrow> rat \<Rightarrow> rat \<Rightarrow> rat \<Rightarrow> rat result option" where
  "babylonian_loop rnd value e x y =
     (case babylonian_body rnd value e x y of
        Return r \<Rightarrow> Some r
      | Continue x' y' \<Rightarrow> babylonian_loop rnd value e x' y')"

text \<open>\<open>x = value; y = 1.0; e = 0.000001\<close>: the literal \<open>0.000001\<close> is itself rounded.\<close>

definition babylonian_sqrt :: "(rat \<Rightarrow> rat result) \<Rightarrow> rat \<Rightarrow> rat result option" where
  "babylonian_sqrt rnd value =
     (case rnd (1 / 1000000) of
        Inl f \<Rightarrow> Some (Inl f)
      | Inr e \<Rightarrow> babylonian_loop rnd value e value 1)"

subsection \<open>calculate_stddev\<close>

fun stddev_loop :: "(rat \<Rightarrow> rat result) \<Rightarrow> rat list \<Rightarrow> rat \<Rightarrow> rat \<Rightarrow> rat result" where
  "stddev_loop rnd [] mean sum_sq = Inr sum_sq"
| "stddev_loop rnd (x # data) mean sum_sq =
     (case rnd (x - mean) of
        Inl f \<Rightarrow> Inl f
      | Inr diff \<Rightarrow>
          (case rnd (diff * diff) of
             Inl f \<Rightarrow> Inl f
           | Inr sq \<Rightarrow>
               (case rnd (sum_sq + sq) of
                  Inl f \<Rightarrow> Inl f
                | Inr s \<Rightarrow> stddev_loop rnd data mean s)))"

definition calculate_stddev ::
  "(rat \<Rightarrow> rat result) \<Rightarrow> rat list \<Rightarrow> rat \<Rightarrow> rat result option" where
  "calculate_stddev rnd data mean =
     (case stddev_loop rnd data mean 0 of
        Inl f \<Rightarrow> Some (Inl f)
      | Inr sum_sq \<Rightarrow>
          (case ddiv rnd sum_sq (of_int (int (length data))) of
             Inl f \<Rightarrow> Some (Inl f)
           | Inr v \<Rightarrow> babylonian_sqrt rnd v))"

subsection \<open>calculate_median\<close>

text \<open>
  \<open>size\<close> is never negative here, so C's \<open>size / 2\<close> and \<open>size % 2\<close> (truncating) are
  \<open>div\<close> and \<open>mod\<close>.
\<close>

definition calculate_median :: "(rat \<Rightarrow> rat result) \<Rightarrow> rat list \<Rightarrow> rat result" where
  "calculate_median rnd data =
     (let size = int (length data) in
      if size mod 2 = 0 then
        (case rd data (size div 2 - 1) of
           Inl f \<Rightarrow> Inl f
         | Inr a \<Rightarrow>
             (case rd data (size div 2) of
                Inl f \<Rightarrow> Inl f
              | Inr b \<Rightarrow>
                  (case rnd (a + b) of
                     Inl f \<Rightarrow> Inl f
                   | Inr s \<Rightarrow> rnd (s / 2))))
      else rd data (size div 2))"

subsection \<open>calculate_mode\<close>

text \<open>
  The \<open>for\<close> loop over \<open>i\<close>, with the local variables \<open>mode\<close>, \<open>max_count\<close> and \<open>count\<close>
  as arguments. The counters are bounded by \<open>size\<close>, so they never overflow an \<open>int\<close>.
  There is no arithmetic on doubles here, only \<open>==\<close>.
\<close>

function mode_loop :: "rat list \<Rightarrow> int \<Rightarrow> rat \<Rightarrow> int \<Rightarrow> int \<Rightarrow> rat result" where
  "mode_loop data i mode max_count count =
     (if i < int (length data) then
        (case rd data i of
           Inl f \<Rightarrow> Inl f
         | Inr a \<Rightarrow>
             (case rd data (i - 1) of
                Inl f \<Rightarrow> Inl f
              | Inr b \<Rightarrow>
                  if a = b then mode_loop data (i + 1) mode max_count (count + 1)
                  else if count > max_count then mode_loop data (i + 1) b count 1
                  else mode_loop data (i + 1) mode max_count 1))
      else Inr mode)"
  by pat_completeness auto
termination
  by (relation "measure (\<lambda>(data, i, mode, max_count, count). nat (int (length data) - i))") auto

declare mode_loop.simps [simp del]

definition calculate_mode :: "rat list \<Rightarrow> rat result" where
  "calculate_mode data =
     (case rd data 0 of
        Inl f \<Rightarrow> Inl f
      | Inr mode \<Rightarrow> mode_loop data 1 mode 1 1)"

subsection \<open>calculate_harmonic_mean\<close>

fun harmonic_loop :: "(rat \<Rightarrow> rat result) \<Rightarrow> rat list \<Rightarrow> rat \<Rightarrow> rat result" where
  "harmonic_loop rnd [] denominator_sum = Inr denominator_sum"
| "harmonic_loop rnd (x # data) denominator_sum =
     (case ddiv rnd 1 x of
        Inl f \<Rightarrow> Inl f
      | Inr r \<Rightarrow>
          (case rnd (denominator_sum + r) of
             Inl f \<Rightarrow> Inl f
           | Inr s \<Rightarrow> harmonic_loop rnd data s))"

definition calculate_harmonic_mean :: "(rat \<Rightarrow> rat result) \<Rightarrow> rat list \<Rightarrow> rat result" where
  "calculate_harmonic_mean rnd data =
     (case harmonic_loop rnd data 0 of
        Inl f \<Rightarrow> Inl f
      | Inr denominator_sum \<Rightarrow> ddiv rnd (of_int (int (length data))) denominator_sum)"

section \<open>The growable array and main\<close>

text \<open>
  The heap: the live blocks, each a list of cells (\<open>None\<close> is a cell never written), and
  the number of allocation requests made so far, which is also the next fresh address.
  Whether an allocation succeeds is not decided by the program: \<open>ok k\<close> says whether
  request number \<open>k\<close> does. \<open>NULL\<close> is \<open>None\<close>.
\<close>

type_synonym addr = nat

record memory =
  blocks :: "addr \<rightharpoonup> rat option list"
  requests :: nat

definition empty_memory :: memory where
  "empty_memory = \<lparr>blocks = Map.empty, requests = 0\<rparr>"

definition INT_MAX :: int where
  "INT_MAX = 2147483647"

definition malloc :: "(nat \<Rightarrow> bool) \<Rightarrow> int \<Rightarrow> memory \<Rightarrow> addr option \<times> memory" where
  "malloc ok n m =
     (let k = requests m in
      if ok k
      then (Some k, m\<lparr>blocks := (blocks m)(k \<mapsto> replicate (nat n) None), requests := Suc k\<rparr>)
      else (None, m\<lparr>requests := Suc k\<rparr>))"

definition free :: "addr \<Rightarrow> memory \<Rightarrow> memory" where
  "free p m = m\<lparr>blocks := (blocks m)(p := None)\<rparr>"

definition memcpy :: "addr \<Rightarrow> addr \<Rightarrow> int \<Rightarrow> memory \<Rightarrow> memory result" where
  "memcpy dst src n m =
     (case (blocks m dst, blocks m src) of
        (Some d, Some s) \<Rightarrow>
          if 0 \<le> n \<and> nat n \<le> length d \<and> nat n \<le> length s
          then Inr (m\<lparr>blocks := (blocks m)(dst \<mapsto> take (nat n) s @ drop (nat n) d)\<rparr>)
          else Inl Bad_Index
      | _ \<Rightarrow> Inl Bad_Index)"

definition store :: "addr \<Rightarrow> int \<Rightarrow> rat \<Rightarrow> memory \<Rightarrow> memory result" where
  "store p i v m =
     (case blocks m p of
        Some b \<Rightarrow>
          if 0 \<le> i \<and> nat i < length b
          then Inr (m\<lparr>blocks := (blocks m)(p \<mapsto> b[nat i := Some v])\<rparr>)
          else Inl Bad_Index
      | None \<Rightarrow> Inl Bad_Index)"

definition load :: "addr \<Rightarrow> int \<Rightarrow> memory \<Rightarrow> rat list result" where
  "load p n m =
     (case blocks m p of
        Some b \<Rightarrow>
          if 0 \<le> n \<and> nat n \<le> length b \<and> list_all (\<lambda>c. c \<noteq> None) (take (nat n) b)
          then Inr (map the (take (nat n) b))
          else Inl Bad_Index
      | None \<Rightarrow> Inl Bad_Index)"

text \<open>
  \<^verbatim>\<open>*new_capacity = 2 * (*new_capacity)\<close> comes first, also when the allocation then
  fails; signed overflow of the product is a fault.
\<close>

definition enlarge_array ::
  "(nat \<Rightarrow> bool) \<Rightarrow> addr \<Rightarrow> int \<Rightarrow> int \<Rightarrow> memory \<Rightarrow> (addr option \<times> int \<times> memory) result" where
  "enlarge_array ok old_array old_size capacity m =
     (if 2 * capacity < - INT_MAX - 1 \<or> INT_MAX < 2 * capacity then Inl Int_Overflow
      else
        let new_capacity = 2 * capacity in
        case malloc ok new_capacity m of
          (None, m') \<Rightarrow> Inr (None, new_capacity, m')
        | (Some new_array, m') \<Rightarrow>
            (case memcpy new_array old_array old_size m' of
               Inl f \<Rightarrow> Inl f
             | Inr m'' \<Rightarrow> Inr (Some new_array, new_capacity, free old_array m'')))"

text \<open>
  The reading loop of \<open>main\<close>, over the values that \<open>fscanf\<close> delivers. It ends with the
  array filled, or with \<open>free(data); fclose(file); return EXIT_FAILURE\<close>.
\<close>

datatype ingestion = Aborted memory | Ingested addr int int memory

fun ingest ::
  "(nat \<Rightarrow> bool) \<Rightarrow> rat list \<Rightarrow> addr \<Rightarrow> int \<Rightarrow> int \<Rightarrow> memory \<Rightarrow> ingestion result" where
  "ingest ok [] data sz capacity m = Inr (Ingested data sz capacity m)"
| "ingest ok (value # input) data sz capacity m =
     (if sz = capacity then
        (case enlarge_array ok data sz capacity m of
           Inl f \<Rightarrow> Inl f
         | Inr (new_data, capacity', m') \<Rightarrow>
             (case new_data of
                None \<Rightarrow> Inr (Aborted (free data m'))
              | Some p \<Rightarrow>
                  (case store p sz value m' of
                     Inl f \<Rightarrow> Inl f
                   | Inr m'' \<Rightarrow> ingest ok input p (sz + 1) capacity' m'')))
      else
        (case store data sz value m of
           Inl f \<Rightarrow> Inl f
         | Inr m' \<Rightarrow> ingest ok input data (sz + 1) capacity m'))"

text \<open>
  \<open>qsort\<close> with \<open>compare_double\<close>, which is the order of the numbers: the first \<open>n\<close> cells
  end up sorted ascending.
\<close>

definition qsort :: "addr \<Rightarrow> int \<Rightarrow> memory \<Rightarrow> memory result" where
  "qsort p n m =
     (case blocks m p of
        None \<Rightarrow> Inl Bad_Index
      | Some b \<Rightarrow>
          (case load p n m of
             Inl f \<Rightarrow> Inl f
           | Inr xs \<Rightarrow>
               Inr (m\<lparr>blocks := (blocks m)(p \<mapsto> map Some (sort xs) @ drop (nat n) b)\<rparr>)))"

text \<open>
  What \<open>print_results\<close> is given: the number of values, mean, median, mode, standard
  deviation, harmonic mean, and the unused capacity.
\<close>

datatype report = Results int rat rat rat rat rat int

datatype exit_status = EXIT_SUCCESS | EXIT_FAILURE

definition analyse ::
  "(rat \<Rightarrow> rat result) \<Rightarrow> addr \<Rightarrow> int \<Rightarrow> int \<Rightarrow> memory
     \<Rightarrow> (exit_status \<times> report option \<times> memory) result option" where
  "analyse rnd data sz capacity m =
     (case qsort data sz m of
        Inl f \<Rightarrow> Some (Inl f)
      | Inr m' \<Rightarrow>
     (case load data sz m' of
        Inl f \<Rightarrow> Some (Inl f)
      | Inr xs \<Rightarrow>
     (case calculate_mean rnd xs of
        Inl f \<Rightarrow> Some (Inl f)
      | Inr mean \<Rightarrow>
     (case calculate_median rnd xs of
        Inl f \<Rightarrow> Some (Inl f)
      | Inr median \<Rightarrow>
     (case calculate_mode xs of
        Inl f \<Rightarrow> Some (Inl f)
      | Inr mode \<Rightarrow>
     (case calculate_stddev rnd xs mean of
        None \<Rightarrow> None
      | Some (Inl f) \<Rightarrow> Some (Inl f)
      | Some (Inr stddev) \<Rightarrow>
     (case calculate_harmonic_mean rnd xs of
        Inl f \<Rightarrow> Some (Inl f)
      | Inr harmonic_mean \<Rightarrow>
          Some (Inr (EXIT_SUCCESS,
                     Some (Results sz mean median mode stddev harmonic_mean (capacity - sz)),
                     free data m')))))))))"

text \<open>\<open>file\<close> is \<open>None\<close> when \<open>fopen\<close> fails, else the values in the file.\<close>

definition main ::
  "(rat \<Rightarrow> rat result) \<Rightarrow> int \<Rightarrow> (nat \<Rightarrow> bool) \<Rightarrow> rat list option
     \<Rightarrow> (exit_status \<times> report option \<times> memory) result option" where
  "main rnd argc ok file =
     (if argc \<noteq> 2 then Some (Inr (EXIT_FAILURE, None, empty_memory))
      else
        case malloc ok 20 empty_memory of
          (None, m) \<Rightarrow> Some (Inr (EXIT_FAILURE, None, m))
        | (Some data, m) \<Rightarrow>
            (case file of
               None \<Rightarrow> Some (Inr (EXIT_FAILURE, None, free data m))
             | Some input \<Rightarrow>
                 (case ingest ok input data 0 20 m of
                    Inl f \<Rightarrow> Some (Inl f)
                  | Inr (Aborted m') \<Rightarrow> Some (Inr (EXIT_FAILURE, None, m'))
                  | Inr (Ingested data' sz capacity m') \<Rightarrow> analyse rnd data' sz capacity m')))"

text \<open>
  The state of the reading loop is well formed: \<open>data\<close> is the only live block, it has
  \<open>capacity\<close> cells, and its first \<open>sz\<close> cells hold \<open>xs\<close>.
\<close>

definition buffer :: "addr \<Rightarrow> int \<Rightarrow> int \<Rightarrow> memory \<Rightarrow> rat list \<Rightarrow> bool" where
  "buffer data sz capacity m xs \<longleftrightarrow>
     (case blocks m data of
        Some b \<Rightarrow> length b = nat capacity \<and> take (nat sz) b = map Some xs
      | None \<Rightarrow> False)
     \<and> sz = int (length xs) \<and> sz \<le> capacity \<and> 0 < capacity
     \<and> (\<forall>p. p \<noteq> data \<longrightarrow> blocks m p = None)
     \<and> data < requests m"

section \<open>Runs of equal values\<close>

text \<open>
  The specification speaks of runs: maximal blocks of consecutive equal values. \<open>runs\<close>
  lists them in order, each with its value and its length. \<open>best\<close> is the update rule
  of the mode loop (\<open>if (count > max_count)\<close>) applied to a list of finished runs.
\<close>

function runs :: "rat list \<Rightarrow> (rat \<times> nat) list" where
  "runs [] = []"
| "runs (x # xs) =
     (x, Suc (length (takeWhile (\<lambda>y. y = x) xs))) # runs (dropWhile (\<lambda>y. y = x) xs)"
  by pat_completeness auto
termination
  by (relation "measure length") (simp_all add: length_dropWhile_le less_Suc_eq_le)

fun best :: "(rat \<times> nat) list \<Rightarrow> rat \<Rightarrow> nat \<Rightarrow> rat" where
  "best [] mode max_count = mode"
| "best ((v, l) # cs) mode max_count =
     (if l > max_count then best cs v l else best cs mode max_count)"

text \<open>
  The mode as the words "the value beginning the first run whose length strictly exceeds
  the lengths of all earlier runs" determine it, the final run not being compared: the
  runs after the first are searched for the first one longer than every run before it, and
  the first run is the answer when there is none.
\<close>

fun first_exceeding :: "nat \<Rightarrow> (rat \<times> nat) list \<Rightarrow> rat option" where
  "first_exceeding longest [] = None"
| "first_exceeding longest ((v, l) # rs) =
     (if longest < l then Some v else first_exceeding longest rs)"

definition first_record_mode :: "rat list \<Rightarrow> rat option" where
  "first_record_mode data =
     (case runs data of
        [] \<Rightarrow> None
      | (v, l) # rs \<Rightarrow>
          (case first_exceeding l (butlast rs) of
             None \<Rightarrow> Some v
           | Some w \<Rightarrow> Some w))"

section \<open>The square-root iteration, as the specification states it\<close>

text \<open>
  The specification: initialise \<open>x = value\<close>, \<open>y = 1\<close>; repeat \<open>x = (x + y) / 2\<close>,
  \<open>y = value / x\<close> until \<open>x - y \<le> 1e-6\<close>; return \<open>x\<close>. \<open>babylonian_seq value k\<close> is the pair
  \<open>(x, y)\<close> after \<open>k\<close> repetitions in exact arithmetic, \<open>gap value k\<close> its difference.
\<close>

primrec babylonian_seq :: "rat \<Rightarrow> nat \<Rightarrow> rat \<times> rat" where
  "babylonian_seq value 0 = (value, 1)"
| "babylonian_seq value (Suc k) =
     (let x = (fst (babylonian_seq value k) + snd (babylonian_seq value k)) / 2
      in (x, value / x))"

definition gap :: "rat \<Rightarrow> nat \<Rightarrow> rat" where
  "gap value k = fst (babylonian_seq value k) - snd (babylonian_seq value k)"

text \<open>
  A list of loop states follows the loop when each state but the last passes the loop test
  and the body takes it to the next. \<open>trace_3e20\<close> lists the states of the binary64 loop
  for the value \<open>3e20\<close>.
\<close>

fun follows :: "(rat \<Rightarrow> rat result) \<Rightarrow> rat \<Rightarrow> rat \<Rightarrow> (rat \<times> rat) list \<Rightarrow> bool" where
  "follows rnd value e (s # t # ss) =
     (babylonian_body rnd value e (fst s) (snd s) = Continue (fst t) (snd t)
      \<and> follows rnd value e (t # ss))"
| "follows rnd value e ss = True"

definition trace_3e20 :: "(rat \<times> rat) list" where
  "trace_3e20 =
    [(300000000000000000000, 1),
     (150000000000000000000, 2),
     (75000000000000000000, 4),
     (37500000000000000000, 8),
     (18750000000000000000, 16),
     (9375000000000000000, 32),
     (4687500000000000000, 64),
     (2343750000000000000, 128),
     (1171875000000000000, 256),
     (585937500000000128, 4503599627370495 / 8796093022208),
     (292968750000000320, 4503599627370491 / 4398046511104),
     (146484375000000672, 9007199254740951 / 4398046511104),
     (73242187500001360, 9007199254740825 / 2199023255552),
     (36621093750002728, 9007199254740321 / 1099511627776),
     (18310546875005460, 4503599627369153 / 274877906944),
     (9155273437510922, 9007199254730247 / 274877906944),
     (4577636718771845, 9007199254698009 / 137438953472),
     (4577636718837381 / 2, 9007199254569057 / 68719476736),
     (4577636719099525 / 4, 70368744172291 / 268435456),
     (4577636720148101 / 8, 9007199251990015 / 17179869184),
     (4577636724342405 / 16, 9007199243737081 / 8589934592),
     (4577636741119621 / 32, 9007199210725347 / 4294967296),
     (4577636808228485 / 64, 9007199078678413 / 2147483648),
     (35762789661437, 2251799637622681 / 268435456),
     (1144409537601419 / 64, 9007196437740715 / 536870912),
     (4577642445371629 / 512, 9007187986752571 / 268435456),
     (4577659625219321 / 1024, 1125894272873787 / 16777216),
     (4577728344352187 / 2048, 9007018970985895 / 67108864),
     (4578003216757307 / 4096, 9006478171678797 / 33554432),
     (572387830045281 / 1024, 4502157876760129 / 8388608),
     (1145874819728443 / 4096, 4497839263473317 / 4194304),
     (4601068963536715 / 32768, 8961327545481157 / 4194304),
     (4671079334985787 / 65536, 2206753679646369 / 524288),
     (4946923544941583 / 131072, 8334813681072747 / 1048576),
     (1497193813768919 / 65536, 1721206936537435 / 131072),
     (4715594564075273 / 262144, 8743687668934601 / 524288),
     (4543719199271287 / 262144, 4537217666115091 / 262144),
     (4540468432693189 / 262144, 4540466105293825 / 262144),
     (4540467268993507 / 262144, 567558408624151 / 32768),
     (2270233634496679 / 131072, 4540467268993357 / 262144)]"

section \<open>Properties\<close>


subsection \<open>The rounding to binary64\<close>

text \<open>
  \<open>floor_log2\<close> is the exponent it is meant to be, and a rounded value has a significand
  of 53 bits and lies within half a unit in the last place of the exact one.
\<close>

lemma pow2_pos: "0 < pow2 k"
  by (simp add: pow2_def)

lemma pow2_add: "pow2 (a + b) = pow2 a * pow2 b"
proof -
  have p: "pow2 k = 2 powi k" for k
    by (simp add: pow2_def power_int_def field_simps)
  show ?thesis by (simp add: p power_int_add)
qed

lemma pow2_Suc: "pow2 (k + 1) = 2 * pow2 k"
  using pow2_add [of k 1] by (simp add: pow2_def)

lemma floor_log2_bounds:
  assumes "0 < q"
  shows "pow2 (floor_log2 q) \<le> q \<and> q < pow2 (floor_log2 q + 1)"
proof (cases "1 \<le> q")
  case True
  let ?n = "\<lfloor>q\<rfloor>"
  have n: "0 < ?n" using True by simp
  from bitlen_bounds [OF n]
  have lo: "2 ^ nat (bitlen ?n - 1) \<le> ?n" and hi: "?n < 2 ^ nat (bitlen ?n)" by simp_all
  have b1: "1 \<le> bitlen ?n" using n by (simp add: bitlen_alt_def)
  have fl: "floor_log2 q = bitlen ?n - 1" using True by (simp add: floor_log2_def)
  have "pow2 (bitlen ?n - 1) = rat_of_int (2 ^ nat (bitlen ?n - 1))"
    using b1 by (simp add: pow2_def)
  also have "\<dots> \<le> rat_of_int ?n" using lo by (simp only: of_int_le_iff)
  also have "\<dots> \<le> q" by simp
  finally have 1: "pow2 (floor_log2 q) \<le> q" unfolding fl .
  have "?n + 1 \<le> 2 ^ nat (bitlen ?n)" using hi by simp
  then have "rat_of_int (?n + 1) \<le> rat_of_int (2 ^ nat (bitlen ?n))" by (simp only: of_int_le_iff)
  moreover have "q < rat_of_int (?n + 1)" by linarith
  ultimately have "q < rat_of_int (2 ^ nat (bitlen ?n))" by simp
  also have "\<dots> = pow2 (bitlen ?n - 1 + 1)" using b1 by (simp add: pow2_def)
  finally have 2: "q < pow2 (floor_log2 q + 1)" unfolding fl .
  from 1 2 show ?thesis ..
next
  case False
  then have q1: "q < 1" by simp
  let ?c = "\<lceil>1 / q\<rceil>"
  have t: "1 < 1 / q" using assms q1 by simp
  then have c2: "2 \<le> ?c" by (smt (verit) ceiling_le_iff of_int_1 not_less)
  then have n: "0 < ?c - 1" by simp
  let ?j = "bitlen (?c - 1)"
  from bitlen_bounds [OF n]
  have lo: "2 ^ nat (?j - 1) \<le> ?c - 1" and hi: "?c - 1 < 2 ^ nat ?j" by simp_all
  have j1: "1 \<le> ?j" using n by (simp add: bitlen_alt_def)
  have fl: "floor_log2 q = - ?j" using False by (simp add: floor_log2_def)
  have "1 / q \<le> rat_of_int ?c" by simp
  also have "\<dots> \<le> rat_of_int (2 ^ nat ?j)"
  proof -
    have "?c \<le> 2 ^ nat ?j" using hi by simp
    then show ?thesis by (simp only: of_int_le_iff)
  qed
  finally have "1 / q \<le> 2 ^ nat ?j" by simp
  then have "1 \<le> 2 ^ nat ?j * q" using assms by (simp add: field_simps)
  then have "1 / 2 ^ nat ?j \<le> q" by (simp add: field_simps)
  moreover have "pow2 (- ?j) = 1 / 2 ^ nat ?j" using j1 by (simp add: pow2_def)
  ultimately have 1: "pow2 (floor_log2 q) \<le> q" unfolding fl by simp
  have "rat_of_int (2 ^ nat (?j - 1)) \<le> rat_of_int (?c - 1)" using lo by (simp only: of_int_le_iff)
  moreover have "rat_of_int (?c - 1) < 1 / q" by linarith
  ultimately have "2 ^ nat (?j - 1) < 1 / q" by simp
  then have "2 ^ nat (?j - 1) * q < 1" using assms by (simp add: field_simps)
  then have lt: "q < 1 / 2 ^ nat (?j - 1)" by (simp add: field_simps)
  have "pow2 (- ?j + 1) = 1 / 2 ^ nat (?j - 1)"
  proof (cases "?j = 1")
    case True
    then show ?thesis by (simp add: pow2_def)
  next
    case False
    then have "- ?j + 1 < 0" using j1 by simp
    then show ?thesis by (simp add: pow2_def)
  qed
  with lt have 2: "q < pow2 (floor_log2 q + 1)" unfolding fl by simp
  from 1 2 show ?thesis ..
qed

lemma round_even_near: "\<bar>rat_of_int (round_even s) - s\<bar> \<le> 1 / 2"
proof -
  have "rat_of_int \<lfloor>s\<rfloor> \<le> s" "s < rat_of_int \<lfloor>s\<rfloor> + 1" by linarith+
  then show ?thesis
    by (auto simp: round_even_def Let_def)
qed

lemma binary64_error:
  assumes "binary64 q = Inr r" and "q \<noteq> 0"
  shows "\<bar>r - q\<bar> \<le> pow2 (floor_log2 \<bar>q\<bar> - 53)"
proof -
  let ?lg = "floor_log2 \<bar>q\<bar>"
  let ?u = "pow2 (?lg - 52)"
  let ?m = "round_even (\<bar>q\<bar> / ?u)"
  have r: "r = sgn q * rat_of_int ?m * ?u"
    using assms by (simp add: binary64_def Let_def split: if_splits)
  have u: "0 < ?u" by (rule pow2_pos)
  have "\<bar>rat_of_int ?m - \<bar>q\<bar> / ?u\<bar> \<le> 1 / 2" by (rule round_even_near)
  then have "\<bar>rat_of_int ?m - \<bar>q\<bar> / ?u\<bar> * ?u \<le> 1 / 2 * ?u"
    using u by (intro mult_right_mono) simp_all
  moreover have "\<bar>rat_of_int ?m - \<bar>q\<bar> / ?u\<bar> * ?u = \<bar>rat_of_int ?m * ?u - \<bar>q\<bar>\<bar>"
  proof -
    have "\<bar>rat_of_int ?m - \<bar>q\<bar> / ?u\<bar> * ?u = \<bar>(rat_of_int ?m - \<bar>q\<bar> / ?u) * ?u\<bar>"
      using u by (simp add: abs_mult)
    also have "(rat_of_int ?m - \<bar>q\<bar> / ?u) * ?u = rat_of_int ?m * ?u - \<bar>q\<bar>"
      using u by (simp add: left_diff_distrib)
    finally show ?thesis .
  qed
  moreover have "1 / 2 * ?u = pow2 (?lg - 53)"
  proof -
    have "?lg - 52 = ?lg - 53 + 1" by simp
    then have "?u = 2 * pow2 (?lg - 53)" by (simp only: pow2_Suc)
    then show ?thesis by simp
  qed
  ultimately have e: "\<bar>rat_of_int ?m * ?u - \<bar>q\<bar>\<bar> \<le> pow2 (?lg - 53)" by simp
  have q: "q = sgn q * \<bar>q\<bar>" by (simp add: sgn_mult_abs)
  have "r - q = sgn q * (rat_of_int ?m * ?u) - sgn q * \<bar>q\<bar>"
    unfolding r using q by (simp add: mult.assoc)
  then have "\<bar>r - q\<bar> = \<bar>sgn q * (rat_of_int ?m * ?u - \<bar>q\<bar>)\<bar>"
    by (simp only: right_diff_distrib)
  also have "\<dots> = \<bar>rat_of_int ?m * ?u - \<bar>q\<bar>\<bar>"
    using assms(2) by (simp add: abs_mult abs_sgn_eq)
  finally show ?thesis using e by simp
qed


lemma round_even_floor: "\<lfloor>s\<rfloor> \<le> round_even s \<and> round_even s \<le> \<lfloor>s\<rfloor> + 1"
  by (simp add: round_even_def Let_def)

lemma binary64_significand:
  assumes "binary64 q = Inr r" and "q \<noteq> 0"
  shows "\<exists>m. r = sgn q * rat_of_int m * pow2 (floor_log2 \<bar>q\<bar> - 52)
             \<and> 2 ^ 52 \<le> m \<and> m \<le> 2 ^ 53
             \<and> - 1022 \<le> floor_log2 \<bar>q\<bar> \<and> floor_log2 \<bar>q\<bar> \<le> 1022"
proof -
  let ?lg = "floor_log2 \<bar>q\<bar>"
  let ?u = "pow2 (?lg - 52)"
  let ?s = "\<bar>q\<bar> / ?u"
  let ?m = "round_even ?s"
  have r: "r = sgn q * rat_of_int ?m * ?u" and range: "- 1022 \<le> ?lg" "?lg \<le> 1022"
    using assms by (simp_all add: binary64_def Let_def split: if_splits)
  have u: "0 < ?u" by (rule pow2_pos)
  have q: "0 < \<bar>q\<bar>" using assms(2) by simp
  from floor_log2_bounds [OF q]
  have lo: "pow2 ?lg \<le> \<bar>q\<bar>" and hi: "\<bar>q\<bar> < pow2 (?lg + 1)" by simp_all
  have p52: "pow2 52 = 2 ^ 52" and p53: "pow2 53 = 2 ^ 53" by (simp_all add: pow2_def)
  have "?lg = 52 + (?lg - 52)" by simp
  then have "pow2 ?lg = pow2 52 * ?u" by (simp only: pow2_add [symmetric])
  then have "2 ^ 52 * ?u \<le> \<bar>q\<bar>" using lo p52 by simp
  then have s_lo: "2 ^ 52 \<le> ?s" using u by (simp add: pos_le_divide_eq)
  have "?lg + 1 = 53 + (?lg - 52)" by simp
  then have "pow2 (?lg + 1) = pow2 53 * ?u" by (simp only: pow2_add)
  then have "\<bar>q\<bar> < 2 ^ 53 * ?u" using hi p53 by simp
  then have s_hi: "?s < 2 ^ 53" using u by (simp add: pos_divide_less_eq)
  have "rat_of_int (2 ^ 52) \<le> ?s" using s_lo by simp
  then have f_lo: "2 ^ 52 \<le> \<lfloor>?s\<rfloor>" by (simp only: le_floor_iff)
  have "?s < rat_of_int (2 ^ 53)" using s_hi by simp
  then have f_hi: "\<lfloor>?s\<rfloor> < 2 ^ 53" by (simp only: floor_less_iff)
  from round_even_floor [of ?s] f_lo f_hi have "2 ^ 52 \<le> ?m" "?m \<le> 2 ^ 53" by linarith+
  with r range show ?thesis by blast
qed

lemma pow2_powi: "pow2 k = 2 powi k"
  by (simp add: pow2_def power_int_def field_simps)

lemma pow2_less_iff: "pow2 a < pow2 b \<longleftrightarrow> a < b"
proof
  assume l: "pow2 a < pow2 b"
  show "a < b"
  proof (rule ccontr)
    assume "\<not> a < b"
    then have "b \<le> a" by simp
    then have "pow2 b \<le> pow2 a"
      unfolding pow2_powi by (intro power_int_increasing) simp_all
    with l show False by simp
  qed
next
  assume "a < b"
  then show "pow2 a < pow2 b"
    unfolding pow2_powi by (intro power_int_strict_increasing) simp_all
qed

lemma binary64_negative:
  assumes "q < 0" and "binary64 q = Inr r"
  shows "r \<le> 0"
proof -
  from assms(1) have q0: "q \<noteq> 0" by simp
  from binary64_significand [OF assms(2) q0]
  obtain m where r: "r = sgn q * rat_of_int m * pow2 (floor_log2 \<bar>q\<bar> - 52)" and m: "2 ^ 52 \<le> m"
    by blast
  have "0 \<le> rat_of_int m * pow2 (floor_log2 \<bar>q\<bar> - 52)"
    using m pow2_pos [of "floor_log2 \<bar>q\<bar> - 52"] by simp
  then show ?thesis using assms(1) unfolding r by (simp add: mult.assoc)
qed

lemma binary64_in_range:
  assumes "pow2 (- 1022) \<le> \<bar>q\<bar>" and "\<bar>q\<bar> < pow2 1023"
  shows "\<exists>r. binary64 q = Inr r"
proof -
  have q: "0 < \<bar>q\<bar>" using assms(1) pow2_pos [of "- 1022"] by linarith
  let ?lg = "floor_log2 \<bar>q\<bar>"
  from floor_log2_bounds [OF q]
  have lo: "pow2 ?lg \<le> \<bar>q\<bar>" and hi: "\<bar>q\<bar> < pow2 (?lg + 1)" by simp_all
  from lo assms(2) have "pow2 ?lg < pow2 1023" by simp
  then have 1: "?lg < 1023" by (simp only: pow2_less_iff)
  from hi assms(1) have "pow2 (- 1022) < pow2 (?lg + 1)" by simp
  then have 2: "- 1022 < ?lg + 1" by (simp only: pow2_less_iff)
  from 1 2 q show ?thesis by (simp add: binary64_def Let_def)
qed

text \<open>Evaluating the rounding of a number given by numerals.\<close>

lemma bitlen_numeral [simp]: "bitlen (numeral n) = bitlen (numeral n div 2) + 1"
  by (subst compute_bitlen) simp

lemma bitlen_one [simp]: "bitlen 1 = 1"
  by (subst compute_bitlen) simp

lemma floor_rat_numeral [simp]: "\<lfloor>numeral a / numeral b :: rat\<rfloor> = numeral a div numeral b"
  by (metis floor_divide_of_int_eq of_int_numeral)

lemma ceiling_rat_numeral [simp]: "\<lceil>numeral a / numeral b :: rat\<rceil> = - (- numeral a div numeral b)"
  by (metis ceiling_def divide_minus_left floor_divide_of_int_eq of_int_minus of_int_numeral)

lemmas binary64_eval = binary64_def floor_log2_def round_even_def pow2_def Let_def

lemma binary64_e: "binary64 (1 / 1000000) = Inr (4722366482869645 / 4722366482869645213696)"
  by (simp add: binary64_eval split del: if_split)

lemma binary64_0: "binary64 0 = Inr 0"
  by (simp add: binary64_def)

subsection \<open>Median\<close>



subsection \<open>The loops in exact arithmetic\<close>

lemma ddiv_exact: "ddiv exact a b = (if b = 0 then Inl Div_Zero else Inr (a / b))"
  by (simp add: ddiv_def exact_def)


lemma stddev_loop_exact:
  "stddev_loop exact xs m a = Inr (a + (\<Sum>x\<leftarrow>xs. (x - m)\<^sup>2))"
  by (induction xs arbitrary: a) (simp_all add: exact_def power2_eq_square add.assoc)


lemma babylonian_sqrt_exact_small:
  "v \<le> 1 \<Longrightarrow> babylonian_sqrt exact v = Some (Inr v)"
  by (simp add: babylonian_sqrt_def exact_def babylonian_loop.simps babylonian_body_def ddiv_def)

lemma calculate_stddev_eq:
  "data \<noteq> [] \<Longrightarrow>
   calculate_stddev exact data mean
     = babylonian_sqrt exact ((\<Sum>x\<leftarrow>data. (x - mean)\<^sup>2) / of_nat (length data))"
  by (simp add: calculate_stddev_def ddiv_exact stddev_loop_exact)


subsection \<open>Mean\<close>



subsection \<open>Harmonic mean\<close>



subsection \<open>Mode\<close>

lemma runs_eq_Nil [simp]: "runs xs = [] \<longleftrightarrow> xs = []"
  by (cases xs) simp_all

lemma runs_replicate:
  assumes "rest = [] \<or> hd rest \<noteq> b"
  shows "runs (replicate (Suc c) b @ rest) = (b, Suc c) # runs rest"
proof -
  have t0: "takeWhile (\<lambda>y. y = b) rest = []" and d0: "dropWhile (\<lambda>y. y = b) rest = rest"
    using assms by (cases rest; simp)+
  have tw: "takeWhile (\<lambda>y. y = b) (replicate c b @ rest) = replicate c b"
    by (induction c) (simp_all add: t0)
  have dw: "dropWhile (\<lambda>y. y = b) (replicate c b @ rest) = rest"
    by (induction c) (simp_all add: d0)
  show ?thesis by (simp add: tw dw)
qed

lemma mode_loop_runs:
  assumes "1 \<le> i" and "i \<le> length data"
  shows "mode_loop data (int i) mode (int mc) (int (Suc c))
           = Inr (best (butlast (runs (replicate (Suc c) (data ! (i - 1)) @ drop i data))) mode mc)"
  using assms
proof (induction "length data - i" arbitrary: i mode mc c)
  case 0
  then have i: "i = length data" by simp
  have "runs (replicate (Suc c) (data ! (i - 1)) @ []) = [(data ! (i - 1), Suc c)]"
    by (subst runs_replicate) simp_all
  then show ?case
    using i by (subst mode_loop.simps) simp
next
  case (Suc k)
  then have lt: "i < length data" and pos: "1 \<le> i" by simp_all
  let ?a = "data ! i" and ?b = "data ! (i - 1)"
  have dr: "drop i data = ?a # drop (Suc i) data"
    using lt by (simp add: Cons_nth_drop_Suc)
  have rda: "rd data (int i) = Inr ?a" using lt by (simp add: rd_def)
  have rdb: "rd data (int i - 1) = Inr ?b"
    using lt pos by (simp add: rd_def nat_diff_distrib')
  have k: "k = length data - Suc i" using Suc.hyps(2) by simp
  have ih: "\<And>mode mc c. mode_loop data (int (Suc i)) mode (int mc) (int (Suc c))
      = Inr (best (butlast (runs (replicate (Suc c) ?a @ drop (Suc i) data))) mode mc)"
    using Suc.hyps(1) [OF k, of] lt by simp
  have unf: "mode_loop data (int i) mode (int mc) (int (Suc c)) =
     (if ?a = ?b then mode_loop data (int i + 1) mode (int mc) (int (Suc c) + 1)
      else if int (Suc c) > int mc then mode_loop data (int i + 1) ?b (int (Suc c)) 1
      else mode_loop data (int i + 1) mode (int mc) 1)"
    using lt by (subst mode_loop.simps) (simp add: rda rdb)
  have s1: "int i + 1 = int (Suc i)" by simp
  have s2: "int (Suc c) + 1 = int (Suc (Suc c))" by simp
  have s3: "(1::int) = int (Suc 0)" by simp
  show ?case
  proof (cases "?a = ?b")
    case True
    have "replicate (Suc c) ?b @ drop i data = replicate (Suc (Suc c)) ?a @ drop (Suc i) data"
      unfolding dr using True by (simp add: replicate_app_Cons_same)
    then show ?thesis
      unfolding unf s1 s2 using True ih [of mode mc "Suc c"] by simp
  next
    case False
    have r: "runs (replicate (Suc c) ?b @ drop i data) = (?b, Suc c) # runs (replicate (Suc 0) ?a @ drop (Suc i) data)"
      unfolding dr using False by (subst runs_replicate) simp_all
    have ne: "runs (replicate (Suc 0) ?a @ drop (Suc i) data) \<noteq> []" by simp
    show ?thesis
    proof (cases "Suc c > mc")
      case True
      show ?thesis
        unfolding unf s1 r using False True ih [of ?b "Suc c" 0]
        by (simp only: s3 ih butlast.simps ne if_False if_True best.simps of_nat_less_iff)
    next
      case gt: False
      show ?thesis
        unfolding unf s1 r using False gt ih [of mode mc 0]
        by (simp only: s3 ih butlast.simps ne if_False if_True best.simps of_nat_less_iff)
    qed
  qed
qed

lemma calculate_mode_best:
  assumes "data \<noteq> []"
  shows "calculate_mode data = Inr (best (butlast (runs data)) (hd data) 1)"
proof -
  have len: "1 \<le> length data" using assms by (cases data) simp_all
  have r0: "rd data 0 = Inr (hd data)" using assms by (cases data) (simp_all add: rd_def)
  have d: "replicate (Suc 0) (data ! (1 - 1)) @ drop 1 data = data"
    using assms by (cases data) simp_all
  have "mode_loop data (int 1) (hd data) (int 1) (int (Suc 0))
          = Inr (best (butlast (runs (replicate (Suc 0) (data ! (1 - 1)) @ drop 1 data))) (hd data) 1)"
    using len by (intro mode_loop_runs) simp_all
  then show ?thesis
    unfolding d by (simp add: calculate_mode_def r0)
qed


lemma runs_pos: "p \<in> set (runs xs) \<Longrightarrow> 0 < snd p"
  by (induction xs arbitrary: p rule: runs.induct) auto

lemma runs_concat: "concat (map (\<lambda>(v, n). replicate n v) (runs xs)) = xs"
proof (induction xs rule: runs.induct)
  case 1
  show ?case by simp
next
  case (2 x xs)
  have "\<forall>y\<in>set (takeWhile (\<lambda>y. y = x) xs). y = x"
    by (auto dest: set_takeWhileD)
  then have "replicate (length (takeWhile (\<lambda>y. y = x) xs)) x = takeWhile (\<lambda>y. y = x) xs"
    by (rule replicate_length_same)
  with 2 show ?case by simp
qed

lemma runs_adjacent:
  "Suc j < length (runs xs) \<Longrightarrow> fst (runs xs ! j) \<noteq> fst (runs xs ! Suc j)"
proof (induction xs arbitrary: j rule: runs.induct)
  case 1
  then show ?case by simp
next
  case (2 x xs)
  let ?d = "dropWhile (\<lambda>y. y = x) xs"
  show ?case
  proof (cases j)
    case 0
    with 2 have ne: "?d \<noteq> []" by auto
    then have "hd ?d \<noteq> x" using hd_dropWhile [of "\<lambda>y. y = x" xs] by simp
    moreover have "fst (runs ?d ! 0) = hd ?d" using ne by (cases ?d) simp_all
    ultimately show ?thesis using 0 by simp
  next
    case (Suc j')
    with 2 show ?thesis by simp
  qed
qed

lemma best_first_max:
  "((\<forall>j<length cs. snd (cs ! j) \<le> mc) \<and> best cs m mc = m)
   \<or> (\<exists>k<length cs. best cs m mc = fst (cs ! k) \<and> mc < snd (cs ! k)
         \<and> (\<forall>j<k. snd (cs ! j) < snd (cs ! k))
         \<and> (\<forall>j<length cs. snd (cs ! j) \<le> snd (cs ! k)))"
proof (induction cs arbitrary: m mc)
  case Nil
  show ?case by simp
next
  case (Cons p cs)
  obtain v l where p: "p = (v, l)" by (cases p)
  show ?case
  proof (cases "l > mc")
    case True
    from Cons.IH [of l v] show ?thesis
    proof (elim disjE conjE exE)
      assume all: "\<forall>j<length cs. snd (cs ! j) \<le> l" and b: "best cs v l = v"
      have "\<forall>j<length (p # cs). snd ((p # cs) ! j) \<le> snd ((p # cs) ! 0)"
        using all p by (auto simp: nth_Cons split: nat.splits)
      then show ?thesis
        using True p b by (intro disjI2 exI [of _ 0]) simp
    next
      fix k
      assume k: "k < length cs" and b: "best cs v l = fst (cs ! k)" and gt: "l < snd (cs ! k)"
        and before: "\<forall>j<k. snd (cs ! j) < snd (cs ! k)"
        and all: "\<forall>j<length cs. snd (cs ! j) \<le> snd (cs ! k)"
      have 1: "\<forall>j<Suc k. snd ((p # cs) ! j) < snd ((p # cs) ! Suc k)"
        using before gt p by (auto simp: nth_Cons split: nat.splits)
      have 2: "\<forall>j<length (p # cs). snd ((p # cs) ! j) \<le> snd ((p # cs) ! Suc k)"
        using all gt p by (auto simp: nth_Cons split: nat.splits)
      show ?thesis
        using True p b k gt 1 2 by (intro disjI2 exI [of _ "Suc k"]) simp
    qed
  next
    case False
    from Cons.IH [of mc m] show ?thesis
    proof (elim disjE conjE exE)
      assume all: "\<forall>j<length cs. snd (cs ! j) \<le> mc" and b: "best cs m mc = m"
      have "\<forall>j<length (p # cs). snd ((p # cs) ! j) \<le> mc"
        using all p False by (auto simp: nth_Cons split: nat.splits)
      then show ?thesis using False p b by simp
    next
      fix k
      assume k: "k < length cs" and b: "best cs m mc = fst (cs ! k)" and gt: "mc < snd (cs ! k)"
        and before: "\<forall>j<k. snd (cs ! j) < snd (cs ! k)"
        and all: "\<forall>j<length cs. snd (cs ! j) \<le> snd (cs ! k)"
      have 1: "\<forall>j<Suc k. snd ((p # cs) ! j) < snd ((p # cs) ! Suc k)"
        using before gt p False by (auto simp: nth_Cons split: nat.splits)
      have 2: "\<forall>j<length (p # cs). snd ((p # cs) ! j) \<le> snd ((p # cs) ! Suc k)"
        using all gt p False by (auto simp: nth_Cons split: nat.splits)
      show ?thesis
        using False p b k gt 1 2 by (intro disjI2 exI [of _ "Suc k"]) simp
    qed
  qed
qed

text \<open>
  C1, as amended. For every non-empty sequence (sorted or not), \<open>calculate_mode\<close> returns
  the value of run \<open>k\<close>, where \<open>k\<close> is not the final run unless there is only one run, the
  length of run \<open>k\<close> strictly exceeds the length of every earlier run, and no run other
  than the final one is longer than run \<open>k\<close>: the first of the longest runs among those
  before the final one. The final run is never compared, and of two runs of equal length
  the earlier one wins. \<open>[1,1,2,2,2]\<close> and \<open>[1,1,1,2,2]\<close> both give 1.
\<close>

theorem calculate_mode_first_longest:
  "(data \<noteq> [] \<longrightarrow>
      (\<exists>k<length (runs data).
          calculate_mode data = Inr (fst (runs data ! k))
        \<and> (k = 0 \<or> Suc k < length (runs data))
        \<and> (\<forall>j<k. snd (runs data ! j) < snd (runs data ! k))
        \<and> (\<forall>j. Suc j < length (runs data) \<longrightarrow> snd (runs data ! j) \<le> snd (runs data ! k))))
   \<and> calculate_mode [1, 1, 2, 2, 2] = Inr 1
   \<and> calculate_mode [1, 1, 1, 2, 2] = Inr 1"
proof (intro conjI impI)
  assume ne: "data \<noteq> []"
  let ?rs = "runs data" and ?cs = "butlast (runs data)"
  have rs: "?rs \<noteq> []" using ne by simp
  have len: "length ?cs = length ?rs - 1" by simp
  have nth: "\<And>j. Suc j < length ?rs \<Longrightarrow> ?cs ! j = ?rs ! j"
    by (simp add: nth_butlast)
  have hd0: "fst (?rs ! 0) = hd data" using ne by (cases data) simp_all
  have pos0: "1 \<le> snd (?rs ! 0)" using ne by (cases data) simp_all
  have m: "calculate_mode data = Inr (best ?cs (hd data) 1)"
    using ne by (rule calculate_mode_best)
  from best_first_max [of ?cs 1 "hd data"]
  show "\<exists>k<length ?rs.
          calculate_mode data = Inr (fst (?rs ! k))
        \<and> (k = 0 \<or> Suc k < length ?rs)
        \<and> (\<forall>j<k. snd (?rs ! j) < snd (?rs ! k))
        \<and> (\<forall>j. Suc j < length ?rs \<longrightarrow> snd (?rs ! j) \<le> snd (?rs ! k))"
  proof (elim disjE conjE exE)
    assume all: "\<forall>j<length ?cs. snd (?cs ! j) \<le> 1" and b: "best ?cs (hd data) 1 = hd data"
    have "\<forall>j. Suc j < length ?rs \<longrightarrow> snd (?rs ! j) \<le> snd (?rs ! 0)"
    proof (intro allI impI)
      fix j assume j: "Suc j < length ?rs"
      then have "snd (?cs ! j) \<le> 1" using all len by simp
      then show "snd (?rs ! j) \<le> snd (?rs ! 0)" using nth [OF j] pos0 by simp
    qed
    then show ?thesis
      using rs m b hd0 by (intro exI [of _ 0]) simp
  next
    fix k
    assume k: "k < length ?cs" and b: "best ?cs (hd data) 1 = fst (?cs ! k)"
      and before: "\<forall>j<k. snd (?cs ! j) < snd (?cs ! k)"
      and all: "\<forall>j<length ?cs. snd (?cs ! j) \<le> snd (?cs ! k)"
    have sk: "Suc k < length ?rs" using k len by simp
    have 1: "\<forall>j<k. snd (?rs ! j) < snd (?rs ! k)"
    proof (intro allI impI)
      fix j assume j: "j < k"
      then have "Suc j < length ?rs" using sk by simp
      then have e: "?cs ! j = ?rs ! j" by (rule nth)
      have "snd (?cs ! j) < snd (?cs ! k)" using before j by blast
      then show "snd (?rs ! j) < snd (?rs ! k)" by (simp only: e nth [OF sk])
    qed
    have 2: "\<forall>j. Suc j < length ?rs \<longrightarrow> snd (?rs ! j) \<le> snd (?rs ! k)"
    proof (intro allI impI)
      fix j assume j: "Suc j < length ?rs"
      then have "j < length ?cs" using len by simp
      then have "snd (?cs ! j) \<le> snd (?cs ! k)" using all by blast
      then show "snd (?rs ! j) \<le> snd (?rs ! k)" by (simp only: nth [OF j] nth [OF sk])
    qed
    show ?thesis
      using sk m b nth [OF sk] 1 2 by (intro exI [of _ k]) simp
  qed
next
  show "calculate_mode [1, 1, 2, 2, 2] = Inr 1"
    by (simp add: calculate_mode_best)
next
  show "calculate_mode [1, 1, 1, 2, 2] = Inr 1"
    by (simp add: calculate_mode_best)
qed

theorem calculate_mode_first_longest_witness:
  "[1, 2, 2, 3, 3, 4 :: rat] \<noteq> []
   \<and> runs [1, 2, 2, 3, 3, 4] = [(1, 1), (2, 2), (3, 2), (4, 1)]
   \<and> calculate_mode [1, 2, 2, 3, 3, 4] = Inr 2
   \<and> calculate_mode [1, 1, 2, 2, 2] = Inr 1"
  using calculate_mode_first_longest [of "[1, 2, 2, 3, 3, 4]"]
  by (simp add: calculate_mode_best)

text \<open>
  C1, as stated, fails: a run that exceeds all earlier runs is replaced by a later one
  that exceeds it. In \<open>[1,2,2,3,3,3,4]\<close> the first run longer than all earlier runs is
  \<open>2,2\<close>, and the program returns 3. On the two example sequences of the specification
  the two readings agree.
\<close>

theorem calculate_mode_first_record_counterexample:
  "runs [1, 2, 2, 3, 3, 3, 4] = [(1, 1), (2, 2), (3, 3), (4, 1)]
   \<and> first_record_mode [1, 2, 2, 3, 3, 3, 4] = Some 2
   \<and> calculate_mode [1, 2, 2, 3, 3, 3, 4] = Inr 3"
  by (simp add: first_record_mode_def calculate_mode_best)

lemma first_record_mode_examples:
  "first_record_mode [1, 1, 2, 2, 2] = Some 1" "first_record_mode [1, 1, 1, 2, 2] = Some 1"
  by (simp_all add: first_record_mode_def)

subsection \<open>The growable array\<close>

lemma bufferD:
  assumes "buffer d sz cap m xs"
  obtains b where "blocks m d = Some b" "length b = nat cap" "take (nat sz) b = map Some xs"
    "sz = int (length xs)" "sz \<le> cap" "0 < cap" "\<And>p. p \<noteq> d \<Longrightarrow> blocks m p = None"
    "d < requests m"
proof -
  from assms obtain b where "blocks m d = Some b"
    unfolding buffer_def by (cases "blocks m d") simp_all
  moreover from this assms have "length b = nat cap" "take (nat sz) b = map Some xs"
    "sz = int (length xs)" "sz \<le> cap" "0 < cap" "\<And>p. p \<noteq> d \<Longrightarrow> blocks m p = None"
    "d < requests m"
    unfolding buffer_def by auto
  ultimately show ?thesis by (rule that)
qed

lemma bufferI:
  assumes "blocks m d = Some b" "length b = nat cap" "take (nat sz) b = map Some xs"
    "sz = int (length xs)" "sz \<le> cap" "0 < cap" "\<And>p. p \<noteq> d \<Longrightarrow> blocks m p = None"
    "d < requests m"
  shows "buffer d sz cap m xs"
  using assms unfolding buffer_def by simp

lemma load_buffer: "buffer d sz cap m xs \<Longrightarrow> load d sz m = Inr xs"
  by (erule bufferD) (simp add: load_def list_all_iff comp_def)

lemma store_buffer:
  assumes "buffer d sz cap m xs" and "sz < cap"
  shows "\<exists>m'. store d sz v m = Inr m' \<and> buffer d (sz + 1) cap m' (xs @ [v])
           \<and> requests m' = requests m"
proof -
  from assms(1) obtain b where b: "blocks m d = Some b" "length b = nat cap"
    "take (nat sz) b = map Some xs" "sz = int (length xs)" "sz \<le> cap" "0 < cap"
    "\<And>p. p \<noteq> d \<Longrightarrow> blocks m p = None" "d < requests m"
    by (rule bufferD) blast
  let ?m = "m\<lparr>blocks := (blocks m)(d \<mapsto> b[nat sz := Some v])\<rparr>"
  have lt: "nat sz < length b" using b assms(2) by simp
  have st: "store d sz v m = Inr ?m" using b lt by (simp add: store_def)
  have n: "nat (sz + 1) = Suc (nat sz)" using b by simp
  have tk: "take (nat (sz + 1)) (b[nat sz := Some v]) = map Some (xs @ [v])"
    unfolding n using lt b(3) by (simp add: take_Suc_conv_app_nth)
  have "buffer d (sz + 1) cap ?m (xs @ [v])"
    using b assms(2) tk by (intro bufferI [where b = "b[nat sz := Some v]"]) simp_all
  with st show ?thesis by (intro exI [of _ ?m]) simp
qed

lemma enlarge_array_fails:
  assumes "\<not> ok (requests m)" and "0 \<le> cap" and "2 * cap \<le> INT_MAX"
  shows "enlarge_array ok d sz cap m = Inr (None, 2 * cap, m\<lparr>requests := Suc (requests m)\<rparr>)"
  using assms by (simp add: enlarge_array_def malloc_def INT_MAX_def)

lemma enlarge_array_grows:
  assumes "ok (requests m)" and "2 * cap \<le> INT_MAX"
    and "blocks m d = Some b" and "0 \<le> sz" and "nat sz \<le> length b" and "sz \<le> 2 * cap"
    and "d < requests m"
  shows "\<exists>m'. enlarge_array ok d sz cap m = Inr (Some (requests m), 2 * cap, m')
           \<and> blocks m' = (blocks m)(requests m \<mapsto> take (nat sz) b @ replicate (nat (2 * cap) - nat sz) None,
                                     d := None)
           \<and> requests m' = Suc (requests m)"
proof -
  have ne: "requests m \<noteq> d" using assms(7) by simp
  have cap0: "0 \<le> cap" using assms by simp
  show ?thesis
    using assms ne cap0
    by (simp add: enlarge_array_def malloc_def memcpy_def free_def INT_MAX_def Let_def)
qed

lemma enlarge_array_buffer:
  assumes "buffer d sz cap m xs" and "ok (requests m)" and "2 * cap \<le> INT_MAX"
  shows "\<exists>m'. enlarge_array ok d sz cap m = Inr (Some (requests m), 2 * cap, m')
           \<and> buffer (requests m) sz (2 * cap) m' xs \<and> requests m' = Suc (requests m)"
proof -
  from assms(1) obtain b where b: "blocks m d = Some b" "length b = nat cap"
    "take (nat sz) b = map Some xs" "sz = int (length xs)" "sz \<le> cap" "0 < cap"
    "\<And>p. p \<noteq> d \<Longrightarrow> blocks m p = None" "d < requests m"
    by (rule bufferD) blast
  have "\<exists>m'. enlarge_array ok d sz cap m = Inr (Some (requests m), 2 * cap, m')
           \<and> blocks m' = (blocks m)(requests m \<mapsto> take (nat sz) b @ replicate (nat (2 * cap) - nat sz) None,
                                     d := None)
           \<and> requests m' = Suc (requests m)"
    using assms(2,3) b by (intro enlarge_array_grows) simp_all
  then obtain m' where m': "enlarge_array ok d sz cap m = Inr (Some (requests m), 2 * cap, m')"
    "blocks m' = (blocks m)(requests m \<mapsto> take (nat sz) b @ replicate (nat (2 * cap) - nat sz) None,
                                     d := None)"
    "requests m' = Suc (requests m)"
    by blast
  have ne: "requests m \<noteq> d" using b(8) by simp
  have "buffer (requests m) sz (2 * cap) m' xs"
  proof (rule bufferI [where b = "take (nat sz) b @ replicate (nat (2 * cap) - nat sz) None"])
    show "blocks m' (requests m) = Some (take (nat sz) b @ replicate (nat (2 * cap) - nat sz) None)"
      using m'(2) ne by simp
    show "length (take (nat sz) b @ replicate (nat (2 * cap) - nat sz) None) = nat (2 * cap)"
      using b by simp
    show "take (nat sz) (take (nat sz) b @ replicate (nat (2 * cap) - nat sz) None) = map Some xs"
      using b by simp
    show "\<And>p. p \<noteq> requests m \<Longrightarrow> blocks m' p = None"
      using m'(2) b(7) by simp
  qed (use b m'(3) in simp_all)
  with m' show ?thesis by blast
qed


lemma ingest_buffer:
  assumes "buffer d sz cap m xs"
    and "ingest ok input d sz cap m = Inr (Ingested d' sz' cap' m')"
  shows "buffer d' sz' cap' m' (xs @ input)
         \<and> (\<exists>g. cap' = cap * 2 ^ g \<and> requests m' = requests m + g \<and> (g = 0 \<or> cap' < 2 * sz'))"
  using assms
proof (induction input arbitrary: d sz cap m xs)
  case Nil
  then show ?case by (intro conjI exI [of _ 0]) simp_all
next
  case (Cons v input)
  from Cons.prems(1) have szx: "sz = int (length xs)" and le: "sz \<le> cap" and pos: "0 < cap"
    by (auto elim: bufferD)
  show ?case
  proof (cases "sz = cap")
    case True
    have okk: "ok (requests m)"
    proof (rule ccontr)
      assume "\<not> ok (requests m)"
      then show False
        using Cons.prems(2) True
        by (simp add: enlarge_array_def malloc_def split: if_splits)
    qed
    have nov: "2 * cap \<le> INT_MAX"
      using Cons.prems(2) True by (simp add: enlarge_array_def split: if_splits)
    from enlarge_array_buffer [where ok = ok, OF Cons.prems(1) okk nov]
    obtain m1 where m1: "enlarge_array ok d sz cap m = Inr (Some (requests m), 2 * cap, m1)"
      "buffer (requests m) sz (2 * cap) m1 xs" "requests m1 = Suc (requests m)"
      by blast
    have lt: "sz < 2 * cap" using le pos by simp
    from store_buffer [OF m1(2) lt, of v]
    obtain m2 where m2: "store (requests m) sz v m1 = Inr m2"
      "buffer (requests m) (sz + 1) (2 * cap) m2 (xs @ [v])" "requests m2 = requests m1"
      by blast
    have rec: "ingest ok input (requests m) (sz + 1) (2 * cap) m2 = Inr (Ingested d' sz' cap' m')"
      using Cons.prems(2) True m1(1) m2(1) by simp
    from Cons.IH [OF m2(2) rec]
    obtain g where b: "buffer d' sz' cap' m' ((xs @ [v]) @ input)"
      and g: "cap' = 2 * cap * 2 ^ g" "requests m' = requests m2 + g" "g = 0 \<or> cap' < 2 * sz'"
      by blast
    from b have sz': "sz' = int (length ((xs @ [v]) @ input))" by (auto elim: bufferD)
    have "cap' < 2 * sz'"
    proof (cases "g = 0")
      case True
      then show ?thesis using g(1) sz' szx \<open>sz = cap\<close> by simp
    next
      case False
      then show ?thesis using g(3) by simp
    qed
    then have "cap' = cap * 2 ^ Suc g \<and> requests m' = requests m + Suc g
               \<and> (Suc g = 0 \<or> cap' < 2 * sz')"
      using g m2(3) m1(3) by simp
    with b show ?thesis by (intro conjI exI [of _ "Suc g"]) simp_all
  next
    case False
    then have lt: "sz < cap" using le by simp
    from store_buffer [OF Cons.prems(1) lt, of v]
    obtain m1 where m1: "store d sz v m = Inr m1" "buffer d (sz + 1) cap m1 (xs @ [v])"
      "requests m1 = requests m"
      by blast
    have rec: "ingest ok input d (sz + 1) cap m1 = Inr (Ingested d' sz' cap' m')"
      using Cons.prems(2) False m1(1) by simp
    from Cons.IH [OF m1(2) rec] m1(3) show ?thesis by simp
  qed
qed

lemma ingest_succeeds:
  assumes "buffer d sz cap m xs" and "\<forall>k. ok k" and "2 * (sz + int (length input)) \<le> INT_MAX"
  shows "\<exists>d' sz' cap' m'. ingest ok input d sz cap m = Inr (Ingested d' sz' cap' m')"
  using assms
proof (induction input arbitrary: d sz cap m xs)
  case Nil
  show ?case by simp
next
  case (Cons v input)
  from Cons.prems(1) have le: "sz \<le> cap" and pos: "0 < cap" and sz0: "0 \<le> sz"
    by (auto elim: bufferD)
  have okk: "ok (requests m)" using Cons.prems(2) by simp
  have bound: "2 * (sz + 1 + int (length input)) \<le> INT_MAX"
    using Cons.prems(3) by simp
  show ?case
  proof (cases "sz = cap")
    case True
    have nov: "2 * cap \<le> INT_MAX" using Cons.prems(3) True by simp
    from enlarge_array_buffer [where ok = ok, OF Cons.prems(1) okk nov]
    obtain m1 where m1: "enlarge_array ok d sz cap m = Inr (Some (requests m), 2 * cap, m1)"
      "buffer (requests m) sz (2 * cap) m1 xs"
      by blast
    have lt: "sz < 2 * cap" using le pos by simp
    from store_buffer [OF m1(2) lt, of v]
    obtain m2 where m2: "store (requests m) sz v m1 = Inr m2"
      "buffer (requests m) (sz + 1) (2 * cap) m2 (xs @ [v])"
      by blast
    from Cons.IH [OF m2(2) Cons.prems(2) bound] show ?thesis
      using True m1(1) m2(1) by simp
  next
    case False
    then have lt: "sz < cap" using le by simp
    from store_buffer [OF Cons.prems(1) lt, of v]
    obtain m1 where m1: "store d sz v m = Inr m1" "buffer d (sz + 1) cap m1 (xs @ [v])"
      by blast
    from Cons.IH [OF m1(2) Cons.prems(2) bound] show ?thesis
      using False m1(1) by simp
  qed
qed

lemma ingest_append:
  "ingest ok (xs @ ys) d sz cap m =
     (case ingest ok xs d sz cap m of
        Inr (Ingested d' sz' cap' m') \<Rightarrow> ingest ok ys d' sz' cap' m'
      | other \<Rightarrow> other)"
  by (induction xs arbitrary: d sz cap m)
    (auto split: sum.splits option.splits prod.splits ingestion.splits)

lemma ingest_aborts_at_once:
  assumes "buffer d sz cap m xs" and "sz = cap" and "\<not> ok (requests m)" and "2 * cap \<le> INT_MAX"
  shows "ingest ok (v # rest) d sz cap m
           = Inr (Aborted \<lparr>blocks = Map.empty, requests = Suc (requests m)\<rparr>)"
proof -
  from assms(1) obtain b where b: "blocks m d = Some b" "0 < cap"
    "\<And>p. p \<noteq> d \<Longrightarrow> blocks m p = None"
    by (rule bufferD) blast
  have e: "enlarge_array ok d sz cap m = Inr (None, 2 * cap, m\<lparr>requests := Suc (requests m)\<rparr>)"
    using assms(3,4) b(2) by (intro enlarge_array_fails) simp_all
  have "(blocks m)(d := None) = Map.empty"
    using b(3) by (intro ext) simp
  then have "free d (m\<lparr>requests := Suc (requests m)\<rparr>) = \<lparr>blocks = Map.empty, requests = Suc (requests m)\<rparr>"
    by (simp add: free_def)
  then show ?thesis using assms(2) e by simp
qed

lemma ingest_aborted_no_leak:
  assumes "buffer d sz cap m xs" and "ingest ok input d sz cap m = Inr (Aborted m')"
  shows "blocks m' = Map.empty"
  using assms
proof (induction input arbitrary: d sz cap m xs)
  case Nil
  then show ?case by simp
next
  case (Cons v input)
  from Cons.prems(1) have le: "sz \<le> cap" and pos: "0 < cap"
    by (auto elim: bufferD)
  show ?case
  proof (cases "sz = cap")
    case True
    have nov: "2 * cap \<le> INT_MAX"
      using Cons.prems(2) True by (simp add: enlarge_array_def split: if_splits)
    show ?thesis
    proof (cases "ok (requests m)")
      case False
      from ingest_aborts_at_once [where ok = ok and v = v and rest = input, OF Cons.prems(1) True False nov] Cons.prems(2)
      show ?thesis by auto
    next
      case okk: True
      from enlarge_array_buffer [where ok = ok, OF Cons.prems(1) okk nov]
      obtain m1 where m1: "enlarge_array ok d sz cap m = Inr (Some (requests m), 2 * cap, m1)"
        "buffer (requests m) sz (2 * cap) m1 xs"
        by blast
      have lt: "sz < 2 * cap" using le pos by simp
      from store_buffer [OF m1(2) lt, of v]
      obtain m2 where m2: "store (requests m) sz v m1 = Inr m2"
        "buffer (requests m) (sz + 1) (2 * cap) m2 (xs @ [v])"
        by blast
      have rec: "ingest ok input (requests m) (sz + 1) (2 * cap) m2 = Inr (Aborted m')"
        using Cons.prems(2) True m1(1) m2(1) by simp
      from Cons.IH [OF m2(2) rec] show ?thesis .
    qed
  next
    case False
    then have lt: "sz < cap" using le by simp
    from store_buffer [OF Cons.prems(1) lt, of v]
    obtain m1 where m1: "store d sz v m = Inr m1" "buffer d (sz + 1) cap m1 (xs @ [v])"
      by blast
    have rec: "ingest ok input d (sz + 1) cap m1 = Inr (Aborted m')"
      using Cons.prems(2) False m1(1) by simp
    from Cons.IH [OF m1(2) rec] show ?thesis .
  qed
qed

lemma initial_buffer:
  "ok 0 \<Longrightarrow> \<exists>m0. malloc ok 20 empty_memory = (Some 0, m0) \<and> buffer 0 0 20 m0 [] \<and> requests m0 = 1"
  by (simp add: malloc_def empty_memory_def buffer_def)


lemma ingest_from_start:
  assumes "ok 0" and "\<forall>k. ok k" and "2 * int (length input) \<le> INT_MAX"
    and "malloc ok 20 empty_memory = (Some 0, m0)"
  shows "\<exists>d cap m g. ingest ok input 0 0 20 m0 = Inr (Ingested d (int (length input)) cap m)
           \<and> buffer d (int (length input)) cap m input
           \<and> cap = 20 * 2 ^ g \<and> requests m = 1 + g \<and> (g = 0 \<or> cap < 2 * int (length input))"
proof -
  from initial_buffer [where ok = ok, OF assms(1)] assms(4)
  have b0: "buffer 0 0 20 m0 []" and r0: "requests m0 = 1" by auto
  from ingest_succeeds [where ok = ok and input = input, OF b0 assms(2)] assms(3)
  obtain d sz cap m where i: "ingest ok input 0 0 20 m0 = Inr (Ingested d sz cap m)"
    by auto
  from ingest_buffer [OF b0 i]
  obtain g where b: "buffer d sz cap m input"
    and g: "cap = 20 * 2 ^ g" "requests m = requests m0 + g" "g = 0 \<or> cap < 2 * sz"
    by auto
  from b have sz: "sz = int (length input)" by (auto elim: bufferD)
  have "requests m = 1 + g" using g(2) r0 by simp
  with i b g(1,3) show ?thesis
    unfolding sz by (intro exI [of _ d] exI [of _ cap] exI [of _ m] exI [of _ g]) simp
qed

lemma ingest_fill:
  assumes "buffer d sz cap m xs" and "sz + int (length input) \<le> cap"
  shows "\<exists>m'. ingest ok input d sz cap m = Inr (Ingested d (sz + int (length input)) cap m')
           \<and> buffer d (sz + int (length input)) cap m' (xs @ input) \<and> requests m' = requests m"
  using assms
proof (induction input arbitrary: sz m xs)
  case Nil
  then show ?case by simp
next
  case (Cons v input)
  have lt: "sz < cap" using Cons.prems(2) by simp
  from store_buffer [OF Cons.prems(1) lt, of v]
  obtain m1 where m1: "store d sz v m = Inr m1" "buffer d (sz + 1) cap m1 (xs @ [v])"
    "requests m1 = requests m"
    by blast
  have "sz + 1 + int (length input) \<le> cap" using Cons.prems(2) by simp
  from Cons.IH [OF m1(2) this] show ?case
    using lt m1(1,3) by (simp add: add.assoc add.commute [of 1])
qed

text \<open>
  C9. When every allocation succeeds, reading 41 values into the initial array of capacity
  20 ends with capacity 80 after exactly two growth steps (three allocations in all), the
  41 values are in the array in the order read, and after every prefix of the input the
  size is at most the capacity. A growth step that succeeds returns a fresh block of twice
  the old capacity whose first \<open>sz\<close> cells are those of the old block, and frees the old one.
\<close>

theorem ingest_41_values:
  assumes "length input = 41" and "\<forall>k. ok k"
  shows "(\<exists>m0 d m.
            malloc ok 20 empty_memory = (Some 0, m0)
          \<and> ingest ok input 0 0 20 m0 = Inr (Ingested d 41 80 m)
          \<and> requests m = 3
          \<and> load d 41 m = Inr input
          \<and> (\<forall>n\<le>41. \<exists>d' cap' m'.
                 ingest ok (take n input) 0 0 20 m0 = Inr (Ingested d' (int n) cap' m')
               \<and> int n \<le> cap' \<and> load d' (int n) m' = Inr (take n input)))
       \<and> (ok' (requests mm) \<and> 2 * cap \<le> INT_MAX \<and> blocks mm old = Some b
            \<and> 0 \<le> sz \<and> nat sz \<le> length b \<and> sz \<le> 2 * cap \<and> old < requests mm \<longrightarrow>
          (\<exists>m'. enlarge_array ok' old sz cap mm = Inr (Some (requests mm), 2 * cap, m')
              \<and> blocks m' = (blocks mm)
                   (requests mm \<mapsto> take (nat sz) b @ replicate (nat (2 * cap) - nat sz) None,
                    old := None)))"
proof (intro conjI impI)
  have ok0: "ok 0" using assms(2) by simp
  from initial_buffer [where ok = ok, OF ok0]
  obtain m0 where m0: "malloc ok 20 empty_memory = (Some 0, m0)" by blast
  have bound: "2 * int (length input) \<le> INT_MAX" using assms(1) by (simp add: INT_MAX_def)
  from ingest_from_start [where ok = ok, OF ok0 assms(2) bound m0]
  obtain d cap m g where i: "ingest ok input 0 0 20 m0 = Inr (Ingested d 41 cap m)"
    and b: "buffer d 41 cap m input"
    and g: "cap = 20 * 2 ^ g" "requests m = 1 + g" "g = 0 \<or> cap < 82"
    using assms(1) by auto
  from b have le: "41 \<le> cap" by (auto elim: bufferD)
  have "g = 2"
  proof (rule ccontr)
    assume "g \<noteq> 2"
    then consider "g = 0" | "g = 1" | "3 \<le> g" by linarith
    then show False
    proof cases
      case 1 then show ?thesis using g(1) le by simp
    next
      case 2 then show ?thesis using g(1) le by simp
    next
      case 3
      then have "(2::int) ^ 3 \<le> 2 ^ g" by (intro power_increasing) simp_all
      then show ?thesis using g(1,3) 3 by simp
    qed
  qed
  then have cap: "cap = 80" and req: "requests m = 3" using g by simp_all
  have pre: "\<forall>n\<le>41. \<exists>d' cap' m'.
                 ingest ok (take n input) 0 0 20 m0 = Inr (Ingested d' (int n) cap' m')
               \<and> int n \<le> cap' \<and> load d' (int n) m' = Inr (take n input)"
  proof (intro allI impI)
    fix n :: nat assume n: "n \<le> 41"
    then have len: "length (take n input) = n" using assms(1) by simp
    have bound': "2 * int (length (take n input)) \<le> INT_MAX"
      using n unfolding len by (simp add: INT_MAX_def)
    from ingest_from_start [where ok = ok, OF ok0 assms(2) bound' m0]
    obtain d' cap' m' where i': "ingest ok (take n input) 0 0 20 m0 = Inr (Ingested d' (int n) cap' m')"
      and b': "buffer d' (int n) cap' m' (take n input)"
      unfolding len by blast
    from b' have "int n \<le> cap'" by (auto elim: bufferD)
    with i' load_buffer [OF b'] show "\<exists>d' cap' m'.
                 ingest ok (take n input) 0 0 20 m0 = Inr (Ingested d' (int n) cap' m')
               \<and> int n \<le> cap' \<and> load d' (int n) m' = Inr (take n input)"
      by blast
  qed
  show "\<exists>m0 d m.
            malloc ok 20 empty_memory = (Some 0, m0)
          \<and> ingest ok input 0 0 20 m0 = Inr (Ingested d 41 80 m)
          \<and> requests m = 3
          \<and> load d 41 m = Inr input
          \<and> (\<forall>n\<le>41. \<exists>d' cap' m'.
                 ingest ok (take n input) 0 0 20 m0 = Inr (Ingested d' (int n) cap' m')
               \<and> int n \<le> cap' \<and> load d' (int n) m' = Inr (take n input))"
    using m0 i b req pre load_buffer [OF b] unfolding cap by blast
next
  assume "ok' (requests mm) \<and> 2 * cap \<le> INT_MAX \<and> blocks mm old = Some b
            \<and> 0 \<le> sz \<and> nat sz \<le> length b \<and> sz \<le> 2 * cap \<and> old < requests mm"
  then have "\<exists>m'. enlarge_array ok' old sz cap mm = Inr (Some (requests mm), 2 * cap, m')
           \<and> blocks m' = (blocks mm)(requests mm \<mapsto> take (nat sz) b @ replicate (nat (2 * cap) - nat sz) None,
                                     old := None)
           \<and> requests m' = Suc (requests mm)"
    by (intro enlarge_array_grows) simp_all
  then show "\<exists>m'. enlarge_array ok' old sz cap mm = Inr (Some (requests mm), 2 * cap, m')
              \<and> blocks m' = (blocks mm)
                   (requests mm \<mapsto> take (nat sz) b @ replicate (nat (2 * cap) - nat sz) None,
                    old := None)"
    by blast
qed


theorem ingest_41_values_witness:
  "length (map rat_of_int [1..41]) = 41 \<and> (\<forall>k. (\<lambda>k. True) k)
   \<and> (\<exists>m0 d m.
          malloc (\<lambda>k. True) 20 empty_memory = (Some 0, m0)
        \<and> ingest (\<lambda>k. True) (map rat_of_int [1..41]) 0 0 20 m0 = Inr (Ingested d 41 80 m)
        \<and> requests m = 3
        \<and> load d 41 m = Inr (map rat_of_int [1..41]))
   \<and> (\<exists>m'. enlarge_array (\<lambda>k. True) 0 2 2 \<lparr>blocks = [0 \<mapsto> [Some 5, Some 6]], requests = 1\<rparr>
                = Inr (Some 1, 4, m')
           \<and> blocks m' 1 = Some [Some 5, Some 6, None, None] \<and> blocks m' 0 = None)"
proof -
  have l: "length (map rat_of_int [1..41]) = 41" by simp
  have k: "\<forall>k. (\<lambda>k. True) k" by simp
  note t = ingest_41_values [where ok = "\<lambda>k. True" and ok' = "\<lambda>k. True"
      and mm = "\<lparr>blocks = [0 \<mapsto> [Some 5, Some 6]], requests = 1\<rparr>" and old = 0 and cap = 2
      and sz = 2 and b = "[Some 5, Some 6]", OF l k]
  have h: "(\<lambda>k. True) (requests \<lparr>blocks = [0 \<mapsto> [Some 5, Some 6]], requests = 1\<rparr>)
      \<and> 2 * 2 \<le> INT_MAX
      \<and> blocks \<lparr>blocks = [0 \<mapsto> [Some 5, Some 6]], requests = 1\<rparr> 0 = Some [Some 5, Some 6]
      \<and> (0 :: int) \<le> 2 \<and> nat 2 \<le> length [Some 5 :: rat option, Some 6] \<and> (2 :: int) \<le> 2 * 2
      \<and> 0 < requests \<lparr>blocks = [0 \<mapsto> [Some 5, Some 6]], requests = 1\<rparr>"
    by (simp add: INT_MAX_def)
  from t [THEN conjunct2, rule_format, OF h]
  have 2: "\<exists>m'. enlarge_array (\<lambda>k. True) 0 2 2 \<lparr>blocks = [0 \<mapsto> [Some 5, Some 6]], requests = 1\<rparr>
                = Inr (Some 1, 4, m')
           \<and> blocks m' 1 = Some [Some 5, Some 6, None, None] \<and> blocks m' 0 = None"
    by (auto simp: numeral_eq_Suc)
  from t [THEN conjunct1]
  have 1: "\<exists>m0 d m.
          malloc (\<lambda>k. True) 20 empty_memory = (Some 0, m0)
        \<and> ingest (\<lambda>k. True) (map rat_of_int [1..41]) 0 0 20 m0 = Inr (Ingested d 41 80 m)
        \<and> requests m = 3
        \<and> load d 41 m = Inr (map rat_of_int [1..41])"
    by blast
  from l k 1 2 show ?thesis by blast
qed

text \<open>
  C10. When the allocation in a growth step fails, \<open>enlarge_array\<close> returns \<open>NULL\<close> and
  leaves every block as it was; the reading loop stops at once, whatever input remains,
  having freed the array; and \<open>main\<close> returns \<open>EXIT_FAILURE\<close> with no report and no live
  block.
\<close>

theorem growth_failure_aborts:
  "(\<not> ok (requests m) \<and> 0 \<le> cap \<and> 2 * cap \<le> INT_MAX \<longrightarrow>
      (\<exists>m'. enlarge_array ok d sz cap m = Inr (None, 2 * cap, m') \<and> blocks m' = blocks m))
   \<and> (buffer d sz cap m xs \<and> sz = cap \<and> \<not> ok (requests m) \<and> 2 * cap \<le> INT_MAX \<longrightarrow>
        ingest ok (v # rest) d sz cap m
          = Inr (Aborted \<lparr>blocks = Map.empty, requests = Suc (requests m)\<rparr>))
   \<and> ((\<exists>m0 m1. malloc ok 20 empty_memory = (Some 0, m0)
                \<and> ingest ok input 0 0 20 m0 = Inr (Aborted m1)) \<longrightarrow>
        (\<exists>m'. main rnd 2 ok (Some input) = Some (Inr (EXIT_FAILURE, None, m'))
             \<and> blocks m' = Map.empty))"
proof (intro conjI impI)
  assume "\<not> ok (requests m) \<and> 0 \<le> cap \<and> 2 * cap \<le> INT_MAX"
  then have "enlarge_array ok d sz cap m = Inr (None, 2 * cap, m\<lparr>requests := Suc (requests m)\<rparr>)"
    by (intro enlarge_array_fails) simp_all
  then show "\<exists>m'. enlarge_array ok d sz cap m = Inr (None, 2 * cap, m') \<and> blocks m' = blocks m"
    by simp
next
  assume "buffer d sz cap m xs \<and> sz = cap \<and> \<not> ok (requests m) \<and> 2 * cap \<le> INT_MAX"
  then have "buffer d sz cap m xs" "sz = cap" "\<not> ok (requests m)" "2 * cap \<le> INT_MAX"
    by blast+
  then show "ingest ok (v # rest) d sz cap m
          = Inr (Aborted \<lparr>blocks = Map.empty, requests = Suc (requests m)\<rparr>)"
    by (rule ingest_aborts_at_once)
next
  assume "\<exists>m0 m1. malloc ok 20 empty_memory = (Some 0, m0)
                \<and> ingest ok input 0 0 20 m0 = Inr (Aborted m1)"
  then obtain m0 m1 where m0: "malloc ok 20 empty_memory = (Some 0, m0)"
    and a: "ingest ok input 0 0 20 m0 = Inr (Aborted m1)"
    by blast
  from m0 have ok0: "ok 0" by (simp add: malloc_def empty_memory_def split: if_splits)
  from initial_buffer [where ok = ok, OF ok0] m0 have b0: "buffer 0 0 20 m0 []" by simp
  from ingest_aborted_no_leak [OF b0 a] have "blocks m1 = Map.empty" .
  moreover have "main rnd 2 ok (Some input) = Some (Inr (EXIT_FAILURE, None, m1))"
    by (simp add: main_def m0 a)
  ultimately show "\<exists>m'. main rnd 2 ok (Some input) = Some (Inr (EXIT_FAILURE, None, m'))
             \<and> blocks m' = Map.empty"
    by blast
qed

theorem growth_failure_aborts_witness:
  "(\<exists>m0 m1. malloc (\<lambda>k. k \<noteq> 1) 20 empty_memory = (Some 0, m0)
        \<and> ingest (\<lambda>k. k \<noteq> 1) ((map rat_of_int [1..20] @ [21, 22])) 0 0 20 m0 = Inr (Aborted m1))
   \<and> (\<exists>m'. main exact 2 (\<lambda>k. k \<noteq> 1) (Some ((map rat_of_int [1..20] @ [21, 22]))) = Some (Inr (EXIT_FAILURE, None, m'))
         \<and> blocks m' = Map.empty)
   \<and> (\<exists>m'. enlarge_array (\<lambda>k. k \<noteq> 1) 0 20 20 \<lparr>blocks = [0 \<mapsto> replicate 20 (Some 7)], requests = 1\<rparr>
              = Inr (None, 40, m')
         \<and> blocks m' = [0 \<mapsto> replicate 20 (Some 7)])"
proof -
  let ?ok = "\<lambda>k :: nat. k \<noteq> 1"
  let ?in = "map rat_of_int [1..20] @ [21, 22]"
  have ok0: "?ok 0" by simp
  from initial_buffer [where ok = ?ok, OF ok0]
  obtain m0 where m0: "malloc ?ok 20 empty_memory = (Some 0, m0)" "buffer 0 0 20 m0 []"
    "requests m0 = 1"
    by blast
  have len: "int (length (map rat_of_int [1..20])) = 20" by simp
  from ingest_fill [OF m0(2), of "map rat_of_int [1..20]" ?ok]
  obtain m1 where m1: "ingest ?ok (map rat_of_int [1..20]) 0 0 20 m0 = Inr (Ingested 0 20 20 m1)"
    "buffer 0 20 20 m1 (map rat_of_int [1..20])" "requests m1 = 1"
    using m0(3) by auto
  note t = growth_failure_aborts [where ok = ?ok and input = ?in and d = 0 and sz = 20
      and cap = 20 and xs = "map rat_of_int [1..20]" and v = 21 and rest = "[22]"]
  have h2: "buffer 0 20 20 m1 (map rat_of_int [1..20]) \<and> (20 :: int) = 20
      \<and> \<not> ?ok (requests m1) \<and> 2 * 20 \<le> INT_MAX"
    using m1 by (simp add: INT_MAX_def)
  have "ingest ?ok ?in 0 0 20 m0 = ingest ?ok [21, 22] 0 20 20 m1"
    by (simp only: ingest_append m1(1) sum.case ingestion.case)
  with t [where m = m1, THEN conjunct2, THEN conjunct1, rule_format, OF h2]
  have ab: "ingest ?ok ?in 0 0 20 m0 = Inr (Aborted \<lparr>blocks = Map.empty, requests = Suc (requests m1)\<rparr>)"
    by (simp only:)
  with m0(1) have h3: "\<exists>m0 m1. malloc ?ok 20 empty_memory = (Some 0, m0)
        \<and> ingest ?ok ?in 0 0 20 m0 = Inr (Aborted m1)"
    by blast
  from t [where m = m1, THEN conjunct2, THEN conjunct2, rule_format, OF h3]
  have 3: "\<exists>m'. main exact 2 ?ok (Some ?in) = Some (Inr (EXIT_FAILURE, None, m')) \<and> blocks m' = Map.empty" .
  let ?m = "\<lparr>blocks = [0 \<mapsto> replicate 20 (Some (7 :: rat))], requests = 1\<rparr>"
  have h1: "\<not> ?ok (requests ?m) \<and> (0 :: int) \<le> 20 \<and> 2 * 20 \<le> INT_MAX"
    by (simp add: INT_MAX_def)
  from t [where m = ?m, THEN conjunct1, rule_format, OF h1]
  have 1: "\<exists>m'. enlarge_array ?ok 0 20 20 ?m = Inr (None, 40, m')
         \<and> blocks m' = [0 \<mapsto> replicate 20 (Some 7)]"
    by simp
  from h3 3 1 show ?thesis by blast
qed

subsection \<open>Square root\<close>

lemma babylonian_seq_pos:
  "0 < value \<Longrightarrow> 0 < fst (babylonian_seq value k) \<and> 0 < snd (babylonian_seq value k)"
  by (induction k) (simp_all add: Let_def)

lemma babylonian_body_exact:
  "babylonian_body exact value e x y =
     (if x - y > e
      then if (x + y) / 2 = 0 then Return (Inl Div_Zero)
           else Continue ((x + y) / 2) (value / ((x + y) / 2))
      else Return (Inr x))"
  by (simp add: babylonian_body_def ddiv_def exact_def)

lemma babylonian_loop_seq:
  assumes "0 < value" and "\<forall>j. k \<le> j \<and> j < n \<longrightarrow> e < gap value j" and "gap value n \<le> e" and "k \<le> n"
  shows "babylonian_loop exact value e (fst (babylonian_seq value k)) (snd (babylonian_seq value k))
           = Some (Inr (fst (babylonian_seq value n)))"
  using assms(2,4)
proof (induction "n - k" arbitrary: k)
  case 0
  then have "k = n" by simp
  then show ?case
    using assms(3) by (subst babylonian_loop.simps) (simp add: babylonian_body_exact gap_def)
next
  case (Suc d)
  then have lt: "k < n" by simp
  then have g: "e < gap value k" using Suc.prems(1) by simp
  let ?x = "fst (babylonian_seq value k)" and ?y = "snd (babylonian_seq value k)"
  have pos: "0 < ?x" "0 < ?y" using babylonian_seq_pos [OF assms(1), of k] by simp_all
  then have nz: "(?x + ?y) / 2 \<noteq> 0" by simp
  have body: "babylonian_body exact value e ?x ?y
      = Continue (fst (babylonian_seq value (Suc k))) (snd (babylonian_seq value (Suc k)))"
    using g nz by (simp add: babylonian_body_exact gap_def Let_def)
  have ih: "babylonian_loop exact value e (fst (babylonian_seq value (Suc k))) (snd (babylonian_seq value (Suc k)))
      = Some (Inr (fst (babylonian_seq value n)))"
    using Suc.hyps(2) Suc.prems lt by (intro Suc.hyps(1)) simp_all
  show ?case
    by (subst babylonian_loop.simps) (simp only: body iteration.case ih)
qed

lemma babylonian_sqrt_seq:
  assumes "\<forall>j<n. 1 / 1000000 < gap value j" and "gap value n \<le> 1 / 1000000"
  shows "babylonian_sqrt exact value = Some (Inr (fst (babylonian_seq value n)))"
proof (cases n)
  case 0
  then show ?thesis
    using assms(2)
    by (simp add: babylonian_sqrt_def exact_def babylonian_loop.simps babylonian_body_def ddiv_def gap_def)
next
  case (Suc n')
  then have "1 / 1000000 < gap value 0" using assms(1) by simp
  then have pos: "0 < value" by (simp add: gap_def)
  have "babylonian_loop exact value (1 / 1000000) (fst (babylonian_seq value 0)) (snd (babylonian_seq value 0))
           = Some (Inr (fst (babylonian_seq value n)))"
    using assms by (intro babylonian_loop_seq [OF pos]) simp_all
  then show ?thesis by (simp add: babylonian_sqrt_def exact_def)
qed

lemma sqrt_exact_4: "babylonian_sqrt exact 4 = Some (Inr (21523361 / 10761680))"
  by (simp add: babylonian_sqrt_def exact_def babylonian_loop.simps babylonian_body_def ddiv_def)

lemma sqrt_exact_2: "babylonian_sqrt exact 2 = Some (Inr (665857 / 470832))"
  by (simp add: babylonian_sqrt_def exact_def babylonian_loop.simps babylonian_body_def ddiv_def)

lemma sqrt_binary64_0: "babylonian_sqrt binary64 0 = Some (Inr 0)"
  by (simp add: babylonian_sqrt_def binary64_e babylonian_loop.simps babylonian_body_def ddiv_def)
    (simp add: binary64_eval split del: if_split)

lemma sqrt_binary64_4:
  "babylonian_sqrt binary64 4 = Some (Inr (2251799918306451 / 1125899906842624))"
  unfolding babylonian_sqrt_def binary64_e sum.case
  by (simp add: babylonian_loop.simps babylonian_body_def ddiv_def binary64_eval split del: if_split)

lemma sqrt_binary64_2:
  "babylonian_sqrt binary64 2 = Some (Inr (6369051672532955 / 4503599627370496))"
  unfolding babylonian_sqrt_def binary64_e sum.case
  by (simp add: babylonian_loop.simps babylonian_body_def ddiv_def binary64_eval split del: if_split)


lemma babylonian_step_halves:
  fixes x y :: rat
  assumes "0 < y" and "y < x"
  shows "(x + y) / 2 - (x * y) / ((x + y) / 2) \<le> (x - y) / 2"
proof -
  have s: "0 < x + y" using assms by simp
  have "(x + y) / 2 - (x * y) / ((x + y) / 2) = (x - y)\<^sup>2 / (2 * (x + y))"
    using s by (simp add: field_simps power2_eq_square)
  also have "\<dots> \<le> ((x - y) * (x + y)) / (2 * (x + y))"
  proof (rule divide_right_mono)
    have "(x - y) * (x - y) \<le> (x - y) * (x + y)"
      using assms by (intro mult_left_mono) simp_all
    then show "(x - y)\<^sup>2 \<le> (x - y) * (x + y)" by (simp add: power2_eq_square)
    show "0 \<le> 2 * (x + y)" using s by simp
  qed
  also have "\<dots> = (x - y) / 2"
    using s by (subst mult_divide_mult_cancel_right) simp_all
  finally show ?thesis .
qed

lemma babylonian_loop_exact_terminates:
  assumes "0 < e" and "0 < x" and "0 < y" and "x * y = value"
  shows "\<exists>r. babylonian_loop exact value e x y = Some (Inr r)"
  using assms(2-)
proof (induction "nat \<lfloor>2 * (x - y) / e\<rfloor>" arbitrary: x y rule: less_induct)
  case less
  show ?case
  proof (cases "e < x - y")
    case False
    then show ?thesis
      by (subst babylonian_loop.simps) (simp add: babylonian_body_exact)
  next
    case True
    let ?x = "(x + y) / 2" and ?y = "value / ((x + y) / 2)"
    have yx: "y < x" using True assms(1) by simp
    have px: "0 < ?x" using less.prems by simp
    have vpos: "0 < value" using less.prems by (metis mult_pos_pos)
    have py: "0 < ?y" using px vpos by simp
    have prod: "?x * ?y = value" using px by simp
    define g where "g = ?x - ?y"
    have half: "g \<le> (x - y) / 2"
      unfolding g_def using babylonian_step_halves [OF less.prems(2) yx] less.prems(3) by simp
    then have g2: "2 * g \<le> x - y" by simp
    define q where "q = (x - y) / e"
    have q1: "1 < q" unfolding q_def using True assms(1) by (simp add: pos_less_divide_eq)
    have tq: "2 * (x - y) / e = 2 * q" unfolding q_def by simp
    have gq: "2 * g / e \<le> q"
      unfolding q_def using g2 assms(1) by (intro divide_right_mono) simp_all
    have f1: "\<lfloor>2 * g / e\<rfloor> \<le> \<lfloor>q\<rfloor>" using gq by (rule floor_mono)
    have "q + 1 \<le> 2 * q" using q1 by linarith
    then have "\<lfloor>q + 1\<rfloor> \<le> \<lfloor>2 * q\<rfloor>" by (rule floor_mono)
    then have f2: "\<lfloor>q\<rfloor> + 1 \<le> \<lfloor>2 * q\<rfloor>" by simp
    have f3: "0 \<le> \<lfloor>q\<rfloor>" using q1 by simp
    have "nat \<lfloor>2 * g / e\<rfloor> < nat \<lfloor>2 * q\<rfloor>" using f1 f2 f3 by linarith
    then have "nat \<lfloor>2 * (?x - ?y) / e\<rfloor> < nat \<lfloor>2 * (x - y) / e\<rfloor>"
      unfolding g_def tq .
    from less.hyps [OF this px py prod]
    obtain r where r: "babylonian_loop exact value e ?x ?y = Some (Inr r)" by blast
    have body: "babylonian_body exact value e x y = Continue ?x ?y"
      using True px by (simp add: babylonian_body_exact)
    show ?thesis
      by (subst babylonian_loop.simps) (simp only: body iteration.case r, blast)
  qed
qed

lemma babylonian_sqrt_exact_total: "\<exists>r. babylonian_sqrt exact value = Some (Inr r)"
proof (cases "1 / 1000000 < value - 1")
  case False
  then show ?thesis
    by (simp add: babylonian_sqrt_def exact_def babylonian_loop.simps babylonian_body_def ddiv_def)
next
  case True
  then have "0 < value" by simp
  then have "\<exists>r. babylonian_loop exact value (1 / 1000000) value 1 = Some (Inr r)"
    by (intro babylonian_loop_exact_terminates) simp_all
  then show ?thesis by (simp add: babylonian_sqrt_def exact_def)
qed

lemma near_sqrt2:
  fixes r :: rat
  assumes "0 < r" and "2 \<le> r\<^sup>2" and "(r - 1 / 1000000)\<^sup>2 \<le> 2"
  shows "\<bar>real_of_rat r - sqrt 2\<bar> \<le> 1 / 1000000"
proof -
  have "real_of_rat 2 \<le> real_of_rat (r\<^sup>2)" using assms(2) by (simp only: of_rat_less_eq)
  then have "2 \<le> (real_of_rat r)\<^sup>2" by (simp add: of_rat_power)
  then have up: "sqrt 2 \<le> real_of_rat r"
    using assms(1) by (intro real_le_lsqrt) simp_all
  have "real_of_rat ((r - 1 / 1000000)\<^sup>2) \<le> real_of_rat 2" using assms(3) by (simp only: of_rat_less_eq)
  then have "(real_of_rat r - 1 / 1000000)\<^sup>2 \<le> 2"
    by (simp add: of_rat_power of_rat_diff of_rat_divide)
  then have "real_of_rat r - 1 / 1000000 \<le> sqrt 2" by (rule real_le_rsqrt)
  with up show ?thesis by simp
qed

text \<open>
  C5. \<open>babylonian_sqrt\<close> computes the stated iteration: when \<open>n\<close> is the first index at
  which the two estimates are within \<open>1e-6\<close>, it returns the \<open>x\<close> of index \<open>n\<close> (exact
  arithmetic). For 0 the first loop test fails and 0 is returned. For 4 and for 2 the
  result is within \<open>1e-6\<close> of 2 and of the square root of 2, which is 1.41421 to five
  decimal places; this holds in exact arithmetic and in binary64.
\<close>

theorem babylonian_sqrt_iteration:
  "((\<forall>j<n. 1 / 1000000 < gap value j) \<and> gap value n \<le> 1 / 1000000 \<longrightarrow>
      babylonian_sqrt exact value = Some (Inr (fst (babylonian_seq value n))))
   \<and> babylonian_body exact 0 (1 / 1000000) 0 1 = Return (Inr 0)
   \<and> babylonian_sqrt exact 0 = Some (Inr 0)
   \<and> babylonian_sqrt binary64 0 = Some (Inr 0)
   \<and> (\<exists>r. babylonian_sqrt exact 4 = Some (Inr r)
          \<and> \<bar>r - 2\<bar> \<le> 1 / 1000000)
   \<and> (\<exists>r. babylonian_sqrt binary64 4 = Some (Inr r)
          \<and> \<bar>r - 2\<bar> \<le> 1 / 1000000)
   \<and> (\<exists>r. babylonian_sqrt exact 2 = Some (Inr r)
          \<and> \<bar>real_of_rat r - sqrt 2\<bar> \<le> 1 / 1000000 \<and> \<bar>r - 141421 / 100000\<bar> < 1 / 200000)
   \<and> (\<exists>r. babylonian_sqrt binary64 2 = Some (Inr r)
          \<and> \<bar>real_of_rat r - sqrt 2\<bar> \<le> 1 / 1000000 \<and> \<bar>r - 141421 / 100000\<bar> < 1 / 200000)"
proof (intro conjI impI)
  assume "(\<forall>j<n. 1 / 1000000 < gap value j) \<and> gap value n \<le> 1 / 1000000"
  then show "babylonian_sqrt exact value = Some (Inr (fst (babylonian_seq value n)))"
    by (intro babylonian_sqrt_seq) simp_all
next
  show "babylonian_body exact 0 (1 / 1000000) 0 1 = Return (Inr 0)"
    by (simp add: babylonian_body_exact)
next
  show "babylonian_sqrt exact 0 = Some (Inr 0)"
    by (simp add: babylonian_sqrt_exact_small)
next
  show "babylonian_sqrt binary64 0 = Some (Inr 0)" by (rule sqrt_binary64_0)
next
  show "\<exists>r. babylonian_sqrt exact 4 = Some (Inr r) \<and> \<bar>r - 2\<bar> \<le> 1 / 1000000"
    unfolding sqrt_exact_4 by (intro exI [of _ "21523361 / 10761680"]) simp
next
  show "\<exists>r. babylonian_sqrt binary64 4 = Some (Inr r) \<and> \<bar>r - 2\<bar> \<le> 1 / 1000000"
    unfolding sqrt_binary64_4 by (intro exI [of _ "2251799918306451 / 1125899906842624"]) simp
next
  have "\<bar>real_of_rat (665857 / 470832) - sqrt 2\<bar> \<le> 1 / 1000000"
    by (rule near_sqrt2) (simp_all add: power2_eq_square)
  then show "\<exists>r. babylonian_sqrt exact 2 = Some (Inr r)
          \<and> \<bar>real_of_rat r - sqrt 2\<bar> \<le> 1 / 1000000 \<and> \<bar>r - 141421 / 100000\<bar> < 1 / 200000"
    unfolding sqrt_exact_2 by (intro exI [of _ "665857 / 470832"]) simp
next
  have "\<bar>real_of_rat (6369051672532955 / 4503599627370496) - sqrt 2\<bar> \<le> 1 / 1000000"
    by (rule near_sqrt2) (simp_all add: power2_eq_square)
  then show "\<exists>r. babylonian_sqrt binary64 2 = Some (Inr r)
          \<and> \<bar>real_of_rat r - sqrt 2\<bar> \<le> 1 / 1000000 \<and> \<bar>r - 141421 / 100000\<bar> < 1 / 200000"
    unfolding sqrt_binary64_2 by (intro exI [of _ "6369051672532955 / 4503599627370496"]) simp
qed

theorem babylonian_sqrt_iteration_witness:
  "1 / 1000000 < gap 4 0 \<and> 1 / 1000000 < gap 4 1 \<and> 1 / 1000000 < gap 4 2
   \<and> 1 / 1000000 < gap 4 3 \<and> gap 4 4 \<le> 1 / 1000000
   \<and> babylonian_seq 4 4 = (21523361 / 10761680, 10761680 * 4 / 21523361)
   \<and> babylonian_sqrt exact 4 = Some (Inr (21523361 / 10761680))"
proof -
  have s: "babylonian_seq 4 0 = (4, 1)" "babylonian_seq 4 1 = (5 / 2, 8 / 5)"
    "babylonian_seq 4 2 = (41 / 20, 80 / 41)" "babylonian_seq 4 3 = (3281 / 1640, 6560 / 3281)"
    "babylonian_seq 4 4 = (21523361 / 10761680, 10761680 * 4 / 21523361)"
    by (simp_all add: numeral_eq_Suc Let_def)
  have g: "1 / 1000000 < gap 4 0" "1 / 1000000 < gap 4 1" "1 / 1000000 < gap 4 2"
    "1 / 1000000 < gap 4 3"
    by (simp_all add: gap_def s)
  have "\<forall>j<4. 1 / 1000000 < gap 4 j"
  proof (intro allI impI)
    fix j :: nat assume "j < 4"
    then consider "j = 0" | "j = 1" | "j = 2" | "j = 3" by linarith
    then show "1 / 1000000 < gap 4 j"
      by cases (simp_all add: gap_def s)
  qed
  moreover have "gap 4 4 \<le> 1 / 1000000" by (simp add: gap_def s)
  ultimately show ?thesis
    using babylonian_sqrt_iteration [of 4 4] s(5) g by simp
qed

lemma babylonian_sqrt_binary64_below_one:
  assumes "v < 1" and "pow2 (- 1022) \<le> 1 - v" and "- 1 < v"
  shows "babylonian_sqrt binary64 v = Some (Inr v)"
proof -
  let ?e = "4722366482869645 / 4722366482869645213696 :: rat"
  have q: "v - 1 < 0" using assms(1) by simp
  have a: "\<bar>v - 1\<bar> = 1 - v" using q by simp
  have "\<bar>v - 1\<bar> < 2" using assms by simp
  also have "(2 :: rat) \<le> pow2 1023" by (simp add: pow2_def)
  finally have "\<exists>r. binary64 (v - 1) = Inr r"
    using assms(2) a by (intro binary64_in_range) simp_all
  then obtain d where d: "binary64 (v - 1) = Inr d" by blast
  from binary64_negative [OF q d] have "\<not> ?e < d" by simp
  then have "babylonian_body binary64 v ?e v 1 = Return (Inr v)"
    by (simp add: babylonian_body_def ddiv_def d)
  then have "babylonian_loop binary64 v ?e v 1 = Some (Inr v)"
    by (subst babylonian_loop.simps) simp
  then show ?thesis by (simp add: babylonian_sqrt_def binary64_e)
qed

text \<open>
  C2. For every value \<open>0 \<le> v < 1\<close> the loop test is false on entry and \<open>babylonian_sqrt\<close>
  returns \<open>v\<close> itself, in exact arithmetic and in binary64 (where \<open>1 - v\<close> is at least
  \<open>2^-1022\<close>, as it is for every double below 1); so \<open>calculate_stddev\<close> returns the
  variance, not its square root, whenever the variance of the data (in binary64: the
  variance as the function has computed it) is below 1.
\<close>

theorem babylonian_sqrt_below_one:
  assumes "0 \<le> v" and "v < 1"
  shows "babylonian_body exact v (1 / 1000000) v 1 = Return (Inr v)
         \<and> babylonian_sqrt exact v = Some (Inr v)
         \<and> (pow2 (- 1022) \<le> 1 - v \<longrightarrow> babylonian_sqrt binary64 v = Some (Inr v))
         \<and> (\<forall>data mean. data \<noteq> [] \<and> (\<Sum>x\<leftarrow>data. (x - mean)\<^sup>2) / of_nat (length data) = v
               \<longrightarrow> calculate_stddev exact data mean = Some (Inr v))
         \<and> (\<forall>data mean sum_sq.
               stddev_loop binary64 data mean 0 = Inr sum_sq
               \<and> ddiv binary64 sum_sq (of_nat (length data)) = Inr v
               \<and> pow2 (- 1022) \<le> 1 - v
               \<longrightarrow> calculate_stddev binary64 data mean = Some (Inr v))"
proof (intro conjI impI allI)
  show "babylonian_body exact v (1 / 1000000) v 1 = Return (Inr v)"
    using assms by (simp add: babylonian_body_def ddiv_def exact_def)
  show "babylonian_sqrt exact v = Some (Inr v)"
    using assms by (simp add: babylonian_sqrt_exact_small)
  show b: "babylonian_sqrt binary64 v = Some (Inr v)" if "pow2 (- 1022) \<le> 1 - v"
    using assms that by (intro babylonian_sqrt_binary64_below_one) simp_all
  show "calculate_stddev exact data mean = Some (Inr v)"
    if "data \<noteq> [] \<and> (\<Sum>x\<leftarrow>data. (x - mean)\<^sup>2) / of_nat (length data) = v" for data mean
    using assms that by (simp add: babylonian_sqrt_exact_small calculate_stddev_eq)
  show "calculate_stddev binary64 data mean = Some (Inr v)"
    if "stddev_loop binary64 data mean 0 = Inr sum_sq
        \<and> ddiv binary64 sum_sq (of_nat (length data)) = Inr v
        \<and> pow2 (- 1022) \<le> 1 - v" for data mean sum_sq
    using that b by (simp add: calculate_stddev_def)
qed

theorem babylonian_sqrt_below_one_witness:
  "(0 :: rat) \<le> 1 / 4 \<and> (1 / 4 :: rat) < 1 \<and> pow2 (- 1022) \<le> 1 - 1 / 4
   \<and> babylonian_sqrt exact (1 / 4) = Some (Inr (1 / 4))
   \<and> babylonian_sqrt binary64 (1 / 4) = Some (Inr (1 / 4))
   \<and> [0, 1 :: rat] \<noteq> [] \<and> (\<Sum>x\<leftarrow>[0, 1 :: rat]. (x - 1 / 2)\<^sup>2) / of_nat (length [0, 1 :: rat]) = 1 / 4
   \<and> calculate_stddev exact [0, 1] (1 / 2) = Some (Inr (1 / 4))
   \<and> stddev_loop binary64 [0, 1] (1 / 2) 0 = Inr (1 / 2)
   \<and> ddiv binary64 (1 / 2) (of_nat (length [0, 1 :: rat])) = Inr (1 / 4)
   \<and> calculate_stddev binary64 [0, 1] (1 / 2) = Some (Inr (1 / 4))"
proof -
  have v: "(0 :: rat) \<le> 1 / 4" "(1 / 4 :: rat) < 1" by simp_all
  have p: "pow2 (- 1022) \<le> 1 - 1 / 4" by (simp add: pow2_def)
  have d: "[0, 1 :: rat] \<noteq> [] \<and> (\<Sum>x\<leftarrow>[0, 1 :: rat]. (x - 1 / 2)\<^sup>2) / of_nat (length [0, 1 :: rat]) = 1 / 4"
    by (simp add: power2_eq_square)
  have r: "binary64 (- (1 / 2)) = Inr (- (1 / 2))" "binary64 (1 / 2) = Inr (1 / 2)"
    "binary64 (1 / 4) = Inr (1 / 4)"
    by (simp_all add: binary64_eval split del: if_split)
  have l: "stddev_loop binary64 [0, 1] (1 / 2) 0 = Inr (1 / 2)"
    by (simp add: r)
  have q: "ddiv binary64 (1 / 2) (of_nat (length [0, 1 :: rat])) = Inr (1 / 4)"
    by (simp add: ddiv_def r)
  note t = babylonian_sqrt_below_one [OF v]
  from t have 1: "babylonian_sqrt exact (1 / 4) = Some (Inr (1 / 4))" by blast
  from t p have 2: "babylonian_sqrt binary64 (1 / 4) = Some (Inr (1 / 4))" by blast
  from t d have 3: "calculate_stddev exact [0, 1] (1 / 2) = Some (Inr (1 / 4))" by blast
  from t l q p have 4: "calculate_stddev binary64 [0, 1] (1 / 2) = Some (Inr (1 / 4))" by blast
  from v p d 1 2 3 4 l q show ?thesis by blast
qed

subsection \<open>Standard deviation\<close>





text \<open>
  In binary64, \<open>calculate_mean\<close> need not return \<open>c\<close> for a sequence of values \<open>c\<close>. For
  ten values \<open>0.1\<close> (the double nearest to it) the sum is \<open>1 - 2^-53\<close> and the mean is the
  double just below \<open>0.1\<close>; \<open>main\<close> passes that mean on, each deviation is \<open>2^-56\<close>, and the
  result is \<open>2^-112\<close>, which prints as \<open>0.000\<close>.
\<close>

lemma tenth_binary64: "binary64 (1 / 10) = Inr (3602879701896397 / 36028797018963968)"
  by (simp add: binary64_eval split del: if_split)

lemma calculate_mean_tenths_binary64:
  "calculate_mean binary64
     [3602879701896397 / 36028797018963968, 3602879701896397 / 36028797018963968,
      3602879701896397 / 36028797018963968, 3602879701896397 / 36028797018963968,
      3602879701896397 / 36028797018963968, 3602879701896397 / 36028797018963968,
      3602879701896397 / 36028797018963968, 3602879701896397 / 36028797018963968,
      3602879701896397 / 36028797018963968, 3602879701896397 / 36028797018963968]
   = Inr (7205759403792793 / 72057594037927936)"
  by (simp add: calculate_mean_def ddiv_def binary64_eval split del: if_split)

lemma calculate_stddev_tenths_binary64:
  "calculate_stddev binary64
     [3602879701896397 / 36028797018963968, 3602879701896397 / 36028797018963968,
      3602879701896397 / 36028797018963968, 3602879701896397 / 36028797018963968,
      3602879701896397 / 36028797018963968, 3602879701896397 / 36028797018963968,
      3602879701896397 / 36028797018963968, 3602879701896397 / 36028797018963968,
      3602879701896397 / 36028797018963968, 3602879701896397 / 36028797018963968]
     (7205759403792793 / 72057594037927936)
   = Some (Inr (1 / 5192296858534827628530496329220096))"
proof -
  have s: "babylonian_sqrt binary64 (1 / 5192296858534827628530496329220096)
             = Some (Inr (1 / 5192296858534827628530496329220096))"
    by (rule babylonian_sqrt_binary64_below_one) (simp_all add: pow2_def)
  have "stddev_loop binary64
     [3602879701896397 / 36028797018963968, 3602879701896397 / 36028797018963968,
      3602879701896397 / 36028797018963968, 3602879701896397 / 36028797018963968,
      3602879701896397 / 36028797018963968, 3602879701896397 / 36028797018963968,
      3602879701896397 / 36028797018963968, 3602879701896397 / 36028797018963968,
      3602879701896397 / 36028797018963968, 3602879701896397 / 36028797018963968]
     (7205759403792793 / 72057594037927936) 0
          = Inr (5 / 2596148429267413814265248164610048)"
    by (simp add: binary64_eval split del: if_split)
  moreover have "ddiv binary64 (5 / 2596148429267413814265248164610048) 10
                   = Inr (1 / 5192296858534827628530496329220096)"
    by (simp add: ddiv_def binary64_eval split del: if_split)
  ultimately show ?thesis
    by (simp add: calculate_stddev_def s del: stddev_loop.simps)
qed

subsection \<open>Square root in binary64: a value for which the loop never returns\<close>

lemma follows_loop:
  "follows rnd value e (s # ss) \<Longrightarrow>
   babylonian_loop rnd value e (fst s) (snd s)
     = babylonian_loop rnd value e (fst (last (s # ss))) (snd (last (s # ss)))"
proof (induction ss arbitrary: s)
  case Nil
  show ?case by simp
next
  case (Cons t ss)
  then have b: "babylonian_body rnd value e (fst s) (snd s) = Continue (fst t) (snd t)"
    and f: "follows rnd value e (t # ss)"
    by simp_all
  have "babylonian_loop rnd value e (fst s) (snd s) = babylonian_loop rnd value e (fst t) (snd t)"
    by (subst babylonian_loop.simps) (simp only: b iteration.case)
  with Cons.IH [OF f] show ?case by simp
qed

lemma babylonian_loop_fixed_point:
  assumes "babylonian_body rnd value e x y = Continue x y"
  shows "babylonian_loop rnd value e x y = None"
proof (rule ccontr)
  assume "babylonian_loop rnd value e x y \<noteq> None"
  then obtain r where r: "babylonian_loop rnd value e x y = Some r" by blast
  note ind = babylonian_loop.raw_induct
    [where P = "\<lambda>rnd value e x y r. babylonian_body rnd value e x y \<noteq> Continue x y"
       and xa = "((((rnd, value), e), x), y)" and ya = r, simplified]
  have "babylonian_body rnd value e x y \<noteq> Continue x y"
    by (rule ind) (use r in \<open>auto split: iteration.splits\<close>)
  with assms show False by simp
qed

lemma trace_3e20_follows:
  "follows binary64 300000000000000000000 (4722366482869645 / 4722366482869645213696) trace_3e20"
  unfolding trace_3e20_def
  by (simp add: babylonian_body_def ddiv_def binary64_eval split del: if_split)

lemma trace_3e20_fixed_point:
  "babylonian_body binary64 300000000000000000000 (4722366482869645 / 4722366482869645213696)
     (2270233634496679 / 131072) (4540467268993357 / 262144)
   = Continue (2270233634496679 / 131072) (4540467268993357 / 262144)"
  by (simp add: babylonian_body_def ddiv_def binary64_eval split del: if_split)

text \<open>
  \<open>main\<close> calls \<open>babylonian_sqrt\<close> with \<open>3e20\<close> for the data \<open>0 0 0 40000000000\<close>: the mean
  is \<open>1e10\<close>, the variance \<open>3e20\<close>, and every intermediate result of the two loops is a
  binary64 number, so that rounding changes none of them.
\<close>

lemma variance_3e20_binary64:
  "binary64 40000000000 = Inr 40000000000"
  "binary64 10000000000 = Inr 10000000000"
  "binary64 (- 10000000000) = Inr (- 10000000000)"
  "binary64 30000000000 = Inr 30000000000"
  "binary64 100000000000000000000 = Inr 100000000000000000000"
  "binary64 200000000000000000000 = Inr 200000000000000000000"
  "binary64 300000000000000000000 = Inr 300000000000000000000"
  "binary64 900000000000000000000 = Inr 900000000000000000000"
  "binary64 1200000000000000000000 = Inr 1200000000000000000000"
  by (simp_all add: binary64_eval split del: if_split)

lemma variance_3e20:
  "calculate_mean binary64 [0, 0, 0, 40000000000] = Inr 10000000000"
  "calculate_stddev binary64 [0, 0, 0, 40000000000] 10000000000
     = babylonian_sqrt binary64 300000000000000000000"
  by (simp_all add: calculate_mean_def calculate_stddev_def ddiv_def binary64_0
      variance_3e20_binary64)

lemma ingest_3e20:
  "ingest (\<lambda>k. True) [0, 0, 0, 40000000000] 0 0 20
       \<lparr>blocks = [0 \<mapsto> replicate 20 None], requests = Suc 0\<rparr>
     = Inr (Ingested 0 4 20
         \<lparr>blocks = [0 \<mapsto> Some 0 # Some 0 # Some 0 # Some 40000000000 # replicate 16 None],
          requests = Suc 0\<rparr>)"
  by (simp add: store_def numeral_eq_Suc)

lemma analyse_3e20:
  assumes "babylonian_sqrt binary64 300000000000000000000 = None"
  shows "analyse binary64 0 4 20
           \<lparr>blocks = [0 \<mapsto> Some 0 # Some 0 # Some 0 # Some 40000000000 # replicate 16 None],
            requests = Suc 0\<rparr> = None"
proof -
  have "\<exists>m. calculate_mode [0, 0, 0, 40000000000] = Inr m"
    by (simp add: calculate_mode_best)
  then obtain mode where mode: "calculate_mode [0, 0, 0, 40000000000] = Inr mode" by blast
  have median: "calculate_median binary64 [0, 0, 0, 40000000000] = Inr 0"
    by (simp add: calculate_median_def rd_def binary64_0)
  show ?thesis
    by (simp add: analyse_def qsort_def load_def variance_3e20 assms mode median numeral_eq_Suc)
qed

text \<open>
  C6. In binary64 the loop does not terminate for every value \<open>\<ge> 0\<close>: for \<open>3e20\<close> it
  reaches, after 39 iterations, estimates \<open>x\<close> and \<open>y\<close> that the body maps to
  themselves, with \<open>x - y = 2^-18\<close>, which is more than \<open>1e-6\<close>. The program calls it
  with that value for the data \<open>0 0 0 40000000000\<close>, and so never returns. (In exact
  arithmetic the loop terminates for every value: \<open>babylonian_sqrt_exact_total\<close>.)
\<close>

theorem babylonian_sqrt_binary64_diverges:
  "babylonian_sqrt binary64 300000000000000000000 = None
   \<and> calculate_mean binary64 [0, 0, 0, 40000000000] = Inr 10000000000
   \<and> calculate_stddev binary64 [0, 0, 0, 40000000000] 10000000000 = None
   \<and> main binary64 2 (\<lambda>k. True) (Some [0, 0, 0, 40000000000]) = None"
proof -
  let ?e = "4722366482869645 / 4722366482869645213696 :: rat"
  have hd: "trace_3e20 = (300000000000000000000, 1) # tl trace_3e20"
    and last: "last trace_3e20 = (2270233634496679 / 131072, 4540467268993357 / 262144)"
    by (simp_all add: trace_3e20_def)
  from trace_3e20_follows have "follows binary64 300000000000000000000 ?e ((300000000000000000000, 1) # tl trace_3e20)"
    using hd by simp
  from follows_loop [OF this]
  have "babylonian_loop binary64 300000000000000000000 ?e 300000000000000000000 1
      = babylonian_loop binary64 300000000000000000000 ?e (2270233634496679 / 131072) (4540467268993357 / 262144)"
    unfolding hd [symmetric] last by simp
  also have "\<dots> = None"
    using trace_3e20_fixed_point by (rule babylonian_loop_fixed_point)
  finally have sqrt: "babylonian_sqrt binary64 300000000000000000000 = None"
    by (simp add: babylonian_sqrt_def binary64_e)
  have stddev: "calculate_stddev binary64 [0, 0, 0, 40000000000] 10000000000 = None"
    by (simp only: variance_3e20 sqrt)
  have "malloc (\<lambda>k. True) 20 empty_memory
          = (Some 0, \<lparr>blocks = [0 \<mapsto> replicate 20 None], requests = Suc 0\<rparr>)"
    by (simp add: malloc_def empty_memory_def)
  then have "main binary64 2 (\<lambda>k. True) (Some [0, 0, 0, 40000000000]) = None"
    by (simp add: main_def ingest_3e20 analyse_3e20 [OF sqrt] del: ingest.simps)
  with sqrt stddev variance_3e20(1) show ?thesis by blast
qed

end
